theory Spec2Isabelle
  imports Main
begin

section \<open>The AMQP producer of \<^verbatim>\<open>src/producer.c\<close>\<close>

text \<open>
  The producer is a single C file driven by the events of the Qpid Proton proactor.
  The embedding follows the file function by function: \<^verbatim>\<open>check_condition\<close>,
  \<^verbatim>\<open>set_topic_prefix_from_connection\<close>, \<^verbatim>\<open>encode_message\<close>,
  \<^verbatim>\<open>handle\<close> and \<^verbatim>\<open>run\<close>.

  \<^item> \<^verbatim>\<open>app_data_t\<close> and the global \<^verbatim>\<open>exit_code\<close> are one record, passed
    through every function and returned updated.
  \<^item> Every call into the Proton library that acts on the connection, and every line
    printed, is appended to the field \<open>trace\<close> in program order, so that "close is
    requested" or "a message is sent" are statements about that list.
  \<^item> What an event carries (link credit, remote delivery state, the condition of the
    remote end, the result of the property lookup) is an argument of the event's
    constructor; the handler reads it where the C code calls the accessor.
  \<^item> \<^verbatim>\<open>exit(1)\<close> is the result \<open>Inl (Exit 1 s)\<close>, with the state \<open>s\<close> the program is in
    at that moment; a loop that never ends is the result \<open>None\<close>.
  \<^item> \<^verbatim>\<open>int\<close> counters are HOL integers and buffer sizes (\<^verbatim>\<open>size_t\<close>) are natural
    numbers. They are the values of the C program as long as these stay in the range
    of the C type: up to \<open>INT_MAX\<close> for the counters, whose only increments are
    \<^verbatim>\<open>++app->sent\<close>, guarded by \<^verbatim>\<open>sent < message_count\<close>, and the unguarded
    \<^verbatim>\<open>++app->acknowledged\<close>; below \<open>2 ^ 64\<close> for the sizes, which are only doubled.
    The statements about the counter \<open>acknowledged\<close> and about the growth of the
    buffers carry these bounds. Allocation (\<^verbatim>\<open>malloc\<close>, \<^verbatim>\<open>realloc\<close>, \<^verbatim>\<open>free\<close>) is
    assumed to succeed and is not part of the state.
\<close>

subsection \<open>Printing an \<^verbatim>\<open>int\<close> with \<^verbatim>\<open>%d\<close>\<close>

definition digit_char :: "nat \<Rightarrow> char" where
  "digit_char d = ''0123456789'' ! d"

fun digits :: "nat \<Rightarrow> string" where
  "digits n = (if n < 10 then [digit_char n] else digits (n div 10) @ [digit_char (n mod 10)])"

declare digits.simps [simp del]

definition show_int :: "int \<Rightarrow> string" where
  "show_int i = (if i < 0 then CHR ''-'' # digits (nat (- i)) else digits (nat i))"

text \<open>Reading a decimal numeral back, used to state what a body or a tag carries.\<close>

definition digit_val :: "char \<Rightarrow> nat" where
  "digit_val c = of_char c - 48"

definition read_nat :: "string \<Rightarrow> nat" where
  "read_nat cs = foldl (\<lambda>a c. 10 * a + digit_val c) 0 cs"

definition read_int :: "string \<Rightarrow> int" where
  "read_int cs = (case cs of
       [] \<Rightarrow> 0
     | c # rest \<Rightarrow> if c = CHR ''-'' then - int (read_nat rest) else int (read_nat cs))"

subsection \<open>Messages and the encode buffer\<close>

text \<open>
  \<^verbatim>\<open>pn_message_t\<close> as far as the producer sets it: the string put into the body and
  the durable flag.
\<close>

record message =
  body :: string
  durable :: bool

text \<open>
  One call \<^verbatim>\<open>pn_message_encode(message, start, &size)\<close> on a buffer of the given
  capacity: status 0 with the encoded size written to \<^verbatim>\<open>size\<close>, \<^verbatim>\<open>PN_OVERFLOW\<close>, or
  any other status, with the text \<^verbatim>\<open>pn_error_text\<close> then has for the message. The
  library is a parameter of the model.
\<close>

datatype encode_result = Encoded nat | Overflow | Failed int string

type_synonym encoder = "message \<Rightarrow> nat \<Rightarrow> encode_result"

text \<open>
  The loop \<^verbatim>\<open>while ((status = pn_message_encode(...)) == PN_OVERFLOW)\<close> of
  \<^verbatim>\<open>encode_message\<close>: the capacity is doubled and the call repeated. It returns the
  capacity reached and the first result that is not an overflow. The capacity is a
  natural number: it is the \<^verbatim>\<open>size_t\<close> of the C program as long as it is below
  \<open>2 ^ 64\<close>.
\<close>

partial_function (option) encode_loop :: "(nat \<Rightarrow> encode_result) \<Rightarrow> nat \<Rightarrow> (nat \<times> encode_result) option" where
  "encode_loop enc cap =
     (case enc cap of
        Overflow \<Rightarrow> encode_loop enc (cap * 2)
      | Encoded n \<Rightarrow> Some (cap, Encoded n)
      | Failed e text \<Rightarrow> Some (cap, Failed e text))"

text \<open>
  The object representation of an \<^verbatim>\<open>int\<close>, which
  \<^verbatim>\<open>pn_dtag((const char *)&app->sent, sizeof(app->sent))\<close> copies into the delivery
  tag: the four bytes of the two's complement value, least significant first (a
  32-bit \<^verbatim>\<open>int\<close> on a little-endian host), and the value such bytes stand for.
\<close>

definition int_bytes :: "int \<Rightarrow> nat list" where
  "int_bytes i =
     (let u = nat (i mod 2 ^ 32)
      in [u mod 256, u div 256 mod 256, u div 65536 mod 256, u div 16777216 mod 256])"

definition bytes_int :: "nat list \<Rightarrow> int" where
  "bytes_int bs =
     (let u = foldr (\<lambda>b a. b + 256 * a) bs 0
      in if u < 2 ^ 31 then int u else int u - 2 ^ 32)"

subsection \<open>Conditions and events\<close>

text \<open>
  One call \<^verbatim>\<open>pn_data_format(info, buf, &len)\<close> on a buffer of the given length:
  \<^verbatim>\<open>PN_OVERFLOW\<close>, or any other status, with the text then found in \<^verbatim>\<open>buf\<close>.
\<close>

datatype format_result = Format_overflow | Format_done string

text \<open>
  A \<^verbatim>\<open>pn_condition_t\<close> as \<^verbatim>\<open>check_condition\<close> reads it. \<open>cond_description\<close> is \<open>None\<close>
  when \<^verbatim>\<open>pn_condition_get_description\<close> returns \<^verbatim>\<open>NULL\<close>, as it does for a condition
  that has a name and no description. \<open>cond_info\<close> is \<open>None\<close> when
  \<^verbatim>\<open>pn_condition_info\<close> is \<^verbatim>\<open>NULL\<close> or holds a null value.
\<close>

record condition =
  is_set :: bool
  cond_name :: string
  cond_description :: "string option"
  cond_info :: "(nat \<Rightarrow> format_result) option"

text \<open>
  What \<^verbatim>\<open>fprintf\<close> prints for a \<^verbatim>\<open>%s\<close> given such a pointer: the string, and the
  text \<^verbatim>\<open>(null)\<close> for \<^verbatim>\<open>NULL\<close> (the C library of the platform, glibc).
\<close>

definition printed :: "string option \<Rightarrow> string" where
  "printed p = (case p of None \<Rightarrow> ''(null)'' | Some cs \<Rightarrow> cs)"

text \<open>
  The events of \<^verbatim>\<open>pn_event_type_t\<close> that \<^verbatim>\<open>handle\<close> names, each with what the handler
  reads from it, and one constructor for every other event type (the
  \<^verbatim>\<open>default\<close> branch), with its printed name.
  \<^item> \<open>PN_CONNECTION_REMOTE_OPEN rc buf\<close>: the result of
    \<^verbatim>\<open>get_data_map_string_property\<close> on the remote properties for the key
    \<^verbatim>\<open>"topic-prefix"\<close> and a 255-byte buffer: its return value and the string left in
    the buffer. The function is declared in \<^verbatim>\<open>util.h\<close>, which is not among the
    sources.
  \<^item> \<open>PN_LINK_FLOW credit\<close>: \<^verbatim>\<open>pn_link_credit(sender)\<close> when the event is handled.
  \<^item> \<open>PN_DELIVERY state cond\<close>: \<^verbatim>\<open>pn_delivery_remote_state(d)\<close> and the condition
    of the remote disposition.
\<close>

datatype event =
    PN_CONNECTION_INIT
  | PN_CONNECTION_REMOTE_OPEN int string
  | PN_LINK_FLOW int
  | PN_DELIVERY nat condition
  | PN_TRANSPORT_CLOSED condition
  | PN_CONNECTION_REMOTE_CLOSE condition
  | PN_SESSION_REMOTE_CLOSE condition
  | PN_LINK_REMOTE_CLOSE condition
  | PN_LINK_REMOTE_DETACH condition
  | PN_PROACTOR_INACTIVE
  | PN_EVENT_OTHER string

fun pn_event_type_name :: "event \<Rightarrow> string" where
  "pn_event_type_name PN_CONNECTION_INIT = ''PN_CONNECTION_INIT''"
| "pn_event_type_name (PN_CONNECTION_REMOTE_OPEN rc buf) = ''PN_CONNECTION_REMOTE_OPEN''"
| "pn_event_type_name (PN_LINK_FLOW credit) = ''PN_LINK_FLOW''"
| "pn_event_type_name (PN_DELIVERY st c) = ''PN_DELIVERY''"
| "pn_event_type_name (PN_TRANSPORT_CLOSED c) = ''PN_TRANSPORT_CLOSED''"
| "pn_event_type_name (PN_CONNECTION_REMOTE_CLOSE c) = ''PN_CONNECTION_REMOTE_CLOSE''"
| "pn_event_type_name (PN_SESSION_REMOTE_CLOSE c) = ''PN_SESSION_REMOTE_CLOSE''"
| "pn_event_type_name (PN_LINK_REMOTE_CLOSE c) = ''PN_LINK_REMOTE_CLOSE''"
| "pn_event_type_name (PN_LINK_REMOTE_DETACH c) = ''PN_LINK_REMOTE_DETACH''"
| "pn_event_type_name PN_PROACTOR_INACTIVE = ''PN_PROACTOR_INACTIVE''"
| "pn_event_type_name (PN_EVENT_OTHER name) = name"

text \<open>The delivery state \<^verbatim>\<open>PN_ACCEPTED\<close> of \<^verbatim>\<open>proton/disposition.h\<close>.\<close>

definition PN_ACCEPTED :: nat where
  "PN_ACCEPTED = 0x24"

text \<open>The cast \<^verbatim>\<open>(int)\<close> of the 64-bit delivery state: its low 32 bits, signed.\<close>

definition int_cast :: "nat \<Rightarrow> int" where
  "int_cast n = (let u = n mod 2 ^ 32 in if u < 2 ^ 31 then int u else int u - 2 ^ 32)"

text \<open>The largest value of an \<^verbatim>\<open>int\<close> (\<^verbatim>\<open>INT_MAX\<close> of \<^verbatim>\<open>limits.h\<close>, 32 bits).\<close>

definition INT_MAX :: int where
  "INT_MAX = 2147483647"

subsection \<open>The state of the program\<close>

text \<open>What the program asks of the library or prints, in the order it does so.\<close>

datatype call =
    Pn_connection_set_user string
  | Pn_connection_set_password "string option"
  | Pn_connection_set_container string
  | Pn_connection_open
  | Pn_session
  | Pn_session_open
  | Pn_sender string
  | Pn_terminus_set_address string
  | Pn_link_open
  | Pn_delivery "nat list"
  | Pn_link_send message nat
  | Pn_link_advance
  | Pn_connection_close
  | Stdout string
  | Stderr string

text \<open>
  \<^verbatim>\<open>app_data_t\<close>, the global \<^verbatim>\<open>exit_code\<close> and the trace. \<open>message_buffer\<close> is
  \<open>None\<close> while \<^verbatim>\<open>message_buffer.start\<close> is \<^verbatim>\<open>NULL\<close>, and \<open>Some size\<close> afterwards.
  \<open>Pn_link_send m n\<close> is the call \<^verbatim>\<open>pn_link_send\<close> on the \<open>n\<close> bytes that encode \<open>m\<close>.
\<close>

record app_data =
  host :: string
  port :: string
  username :: "string option"
  password :: "string option"
  amqp_address :: string
  amqp_topic_prefix :: string
  container_id :: string
  message_count :: int
  message_buffer :: "nat option"
  sent :: int
  acknowledged :: int
  exit_code :: int
  trace :: "call list"

definition emits :: "call list \<Rightarrow> app_data \<Rightarrow> app_data" where
  "emits cs s = s\<lparr>trace := trace s @ cs\<rparr>"

definition newline :: string where
  "newline = [CHR 0x0A]"

text \<open>
  The two functions taken from outside the file: the codec of the Proton library, and
  \<^verbatim>\<open>amqp_destination_address\<close> of \<^verbatim>\<open>util.h\<close>, called with the buffer length
  \<^verbatim>\<open>PN_MAX_ADDR\<close>, as a function of the address and the prefix that gives the return
  value and the string written.
\<close>

record library =
  pn_message_encode :: encoder
  amqp_destination_address :: "string \<Rightarrow> string \<Rightarrow> int \<times> string"

datatype fatal = Exit int app_data

subsection \<open>\<^verbatim>\<open>check_condition\<close>\<close>

text \<open>
  The \<^verbatim>\<open>do ... while (rc == PN_OVERFLOW)\<close> loop that formats the condition's info:
  the length is doubled until \<^verbatim>\<open>pn_data_format\<close> reports anything but an overflow.
\<close>

partial_function (option) format_loop :: "(nat \<Rightarrow> format_result) \<Rightarrow> nat \<Rightarrow> string option" where
  "format_loop fmt len =
     (case fmt len of
        Format_overflow \<Rightarrow> format_loop fmt (len * 2)
      | Format_done buf \<Rightarrow> Some buf)"

definition check_condition :: "event \<Rightarrow> condition \<Rightarrow> app_data \<Rightarrow> app_data option" where
  "check_condition e cond s =
     (if is_set cond then
        (let s1 = emits [Stderr (pn_event_type_name e @ '': '' @ cond_name cond @ '': ''
                           @ printed (cond_description cond) @ newline)] s
         in case (case cond_info cond of
                    None \<Rightarrow> Some s1
                  | Some info \<Rightarrow>
                      (case format_loop info 128 of
                         None \<Rightarrow> None
                       | Some buf \<Rightarrow> Some (emits [Stderr (''Err info: '' @ buf @ newline)] s1))) of
              None \<Rightarrow> None
            | Some s2 \<Rightarrow> Some ((emits [Pn_connection_close] s2)\<lparr>exit_code := 1\<rparr>))
      else Some s)"

subsection \<open>\<^verbatim>\<open>set_topic_prefix_from_connection\<close>\<close>

text \<open>
  \<open>rc\<close> and \<open>buf\<close> are what \<^verbatim>\<open>get_data_map_string_property\<close> returned and wrote.
  The result is the function's return value and the updated \<^verbatim>\<open>app_data_t\<close>.
\<close>

definition set_topic_prefix_from_connection :: "int \<Rightarrow> string \<Rightarrow> app_data \<Rightarrow> int \<times> app_data" where
  "set_topic_prefix_from_connection rc buf s =
     (rc, if rc > 0 then s\<lparr>amqp_topic_prefix := buf\<rparr> else s)"

subsection \<open>\<^verbatim>\<open>encode_message\<close>\<close>

definition sequence_message :: "int \<Rightarrow> message" where
  "sequence_message n = \<lparr>body = ''sequence_'' @ show_int n, durable = True\<rparr>"

text \<open>
  The message built from \<^verbatim>\<open>app->sent\<close>, the buffer allocated with 128 bytes when
  \<^verbatim>\<open>start\<close> is \<^verbatim>\<open>NULL\<close>, the retry loop, and \<^verbatim>\<open>exit(1)\<close> on a status that is neither 0
  nor \<^verbatim>\<open>PN_OVERFLOW\<close>. The result is the updated state, the message encoded and the
  size of the byte range returned. (\<^verbatim>\<open>sprintf\<close> with \<^verbatim>\<open>%d\<close> writes at most 21 bytes into the
  22 allocated, see \<open>sequence_body_fits\<close> below, and has no error to report; the branch
  for its negative return is left out.)
\<close>

fun pn_error_text :: "encode_result \<Rightarrow> string" where
  "pn_error_text (Failed status text) = text"
| "pn_error_text status = []"

definition encode_message :: "encoder \<Rightarrow> app_data \<Rightarrow> (fatal + app_data \<times> message \<times> nat) option" where
  "encode_message enc s =
     (let message = sequence_message (sent s);
          initial_size = 128;
          size0 = (case message_buffer s of None \<Rightarrow> initial_size | Some size_now \<Rightarrow> size_now)
      in case encode_loop (enc message) size0 of
           None \<Rightarrow> None
         | Some (size1, status) \<Rightarrow>
             (case status of
                Encoded n \<Rightarrow> Some (Inr (s\<lparr>message_buffer := Some size1\<rparr>, message, n))
              | _ \<Rightarrow> Some (Inl (Exit 1 (emits [Stderr (''error encoding message: '' @ pn_error_text status @ newline)]
                                             (s\<lparr>message_buffer := Some size1\<rparr>))))))"

subsection \<open>\<^verbatim>\<open>handle\<close>\<close>

text \<open>
  The loop of the \<^verbatim>\<open>PN_LINK_FLOW\<close> case. \<^verbatim>\<open>pn_link_advance\<close> on a sender takes one
  unit from the link's credit, so the credit read by the next test is one less.
\<close>

function link_flow_loop :: "encoder \<Rightarrow> int \<Rightarrow> app_data \<Rightarrow> (fatal + app_data) option" where
  "link_flow_loop enc credit s =
     (if credit > 0 \<and> sent s < message_count s then
        (let s1 = s\<lparr>sent := sent s + 1\<rparr>;
             s2 = emits [Pn_delivery (int_bytes (sent s1))] s1
         in case encode_message enc s2 of
              None \<Rightarrow> None
            | Some (Inl stop) \<Rightarrow> Some (Inl stop)
            | Some (Inr (s3, message, n)) \<Rightarrow>
                link_flow_loop enc (credit - 1) (emits [Pn_link_send message n, Pn_link_advance] s3))
      else Some (Inr s))"
  by pat_completeness auto
termination
  by (relation "measure (\<lambda>(enc, credit, s). nat credit)") auto

declare link_flow_loop.simps [simp del]

text \<open>
  The result of \<^verbatim>\<open>handle\<close> is its return value (\<open>True\<close> to continue) and the updated
  state, \<open>Inl (Exit 1 s)\<close> when the process exits inside the handler, or \<open>None\<close> when
  one of the retry loops never ends.
\<close>

fun handle :: "library \<Rightarrow> app_data \<Rightarrow> event \<Rightarrow> (fatal + bool \<times> app_data) option" where
  "handle lib s PN_CONNECTION_INIT =
     (let s1 = (case username s of
                  Some user \<Rightarrow> emits [Pn_connection_set_user user, Pn_connection_set_password (password s)] s
                | None \<Rightarrow> s)
      in Some (Inr (True, emits [Pn_connection_set_container (container_id s1), Pn_connection_open] s1)))"
| "handle lib s (PN_CONNECTION_REMOTE_OPEN rc buf) =
     (let s1 = snd (set_topic_prefix_from_connection rc buf s);
          s2 = emits [Pn_session, Pn_session_open, Pn_sender ''my_sender''] s1;
          (r, amqp_topic) = amqp_destination_address lib (amqp_address s2) (amqp_topic_prefix s2)
      in if r < 0 then Some (Inr (False, s2\<lparr>exit_code := 1\<rparr>))
         else Some (Inr (True, emits [Stdout (''setting amqp topic:'' @ [CHR 0x27] @ amqp_topic @ [CHR 0x27] @ newline),
                                      Pn_terminus_set_address amqp_topic, Pn_link_open] s2)))"
| "handle lib s (PN_LINK_FLOW credit) =
     (case link_flow_loop (pn_message_encode lib) credit s of
        None \<Rightarrow> None
      | Some (Inl stop) \<Rightarrow> Some (Inl stop)
      | Some (Inr s1) \<Rightarrow> Some (Inr (True, s1)))"
| "handle lib s (PN_DELIVERY remote_state cond) =
     (if remote_state = PN_ACCEPTED then
        (let s1 = s\<lparr>acknowledged := acknowledged s + 1\<rparr>
         in if acknowledged s1 = message_count s1 then
              Some (Inr (True, emits [Stdout (show_int (acknowledged s1) @ '' messages sent and acknowledged'' @ newline),
                                      Pn_connection_close] s1))
            else Some (Inr (True, s1)))
      else
        (let s1 = emits [Stderr (''unexpected delivery state '' @ show_int (int_cast remote_state) @ newline)] s
         in case check_condition (PN_DELIVERY remote_state cond) cond s1 of
              None \<Rightarrow> None
            | Some s2 \<Rightarrow> Some (Inr (True, (emits [Pn_connection_close] s2)\<lparr>exit_code := 1\<rparr>))))"
| "handle lib s (PN_TRANSPORT_CLOSED cond) =
     (case check_condition (PN_TRANSPORT_CLOSED cond) cond s of
        None \<Rightarrow> None
      | Some s1 \<Rightarrow> Some (Inr (True, s1)))"
| "handle lib s (PN_CONNECTION_REMOTE_CLOSE cond) =
     (case check_condition (PN_CONNECTION_REMOTE_CLOSE cond) cond s of
        None \<Rightarrow> None
      | Some s1 \<Rightarrow> Some (Inr (True, emits [Pn_connection_close] s1)))"
| "handle lib s (PN_SESSION_REMOTE_CLOSE cond) =
     (case check_condition (PN_SESSION_REMOTE_CLOSE cond) cond s of
        None \<Rightarrow> None
      | Some s1 \<Rightarrow> Some (Inr (True, emits [Pn_connection_close] s1)))"
| "handle lib s (PN_LINK_REMOTE_CLOSE cond) =
     (case check_condition (PN_LINK_REMOTE_CLOSE cond) cond s of
        None \<Rightarrow> None
      | Some s1 \<Rightarrow> Some (Inr (True, emits [Pn_connection_close] s1)))"
| "handle lib s (PN_LINK_REMOTE_DETACH cond) =
     (case check_condition (PN_LINK_REMOTE_DETACH cond) cond s of
        None \<Rightarrow> None
      | Some s1 \<Rightarrow> Some (Inr (True, emits [Pn_connection_close] s1)))"
| "handle lib s PN_PROACTOR_INACTIVE = Some (Inr (False, s))"
| "handle lib s (PN_EVENT_OTHER name) = Some (Inr (True, s))"

declare handle.simps [simp del]

subsection \<open>\<^verbatim>\<open>run\<close>\<close>

text \<open>
  \<^verbatim>\<open>run\<close> takes the events of every batch in turn and returns when \<^verbatim>\<open>handle\<close> returns
  false. The argument is the sequence of events the proactor hands out; when it is
  used up, the loop is back in \<^verbatim>\<open>pn_proactor_wait\<close> (\<open>Waiting\<close>).
\<close>

datatype outcome = Waiting app_data | Returned app_data

fun state_of :: "outcome \<Rightarrow> app_data" where
  "state_of (Waiting s) = s"
| "state_of (Returned s) = s"

fun run :: "library \<Rightarrow> app_data \<Rightarrow> event list \<Rightarrow> (fatal + outcome) option" where
  "run lib s [] = Some (Inr (Waiting s))"
| "run lib s (e # es) =
     (case handle lib s e of
        None \<Rightarrow> None
      | Some (Inl stop) \<Rightarrow> Some (Inl stop)
      | Some (Inr (continue, s1)) \<Rightarrow> if continue then run lib s1 es else Some (Inr (Returned s1)))"

text \<open>
  The state \<^verbatim>\<open>main\<close> hands to \<^verbatim>\<open>run\<close>: \<^verbatim>\<open>struct app_data_t app = {0}\<close>, then the
  values \<^verbatim>\<open>parse_args\<close> stores, here with the message count, the address, the
  container id and the credentials the command line gave.
\<close>

definition initial_app :: "int \<Rightarrow> string \<Rightarrow> string \<Rightarrow> string option \<Rightarrow> string option \<Rightarrow> app_data" where
  "initial_app count addr cid user pass =
     \<lparr>host = ''localhost'', port = ''amqp'', username = user, password = pass,
      amqp_address = addr, amqp_topic_prefix = ''topic://'', container_id = cid,
      message_count = count, message_buffer = None, sent = 0, acknowledged = 0,
      exit_code = 0, trace = []\<rparr>"

subsection \<open>Reading the trace\<close>

text \<open>The messages handed to \<^verbatim>\<open>pn_link_send\<close> and the tags given to \<^verbatim>\<open>pn_delivery\<close>, in order.\<close>

fun sends :: "call list \<Rightarrow> message list" where
  "sends [] = []"
| "sends (Pn_link_send m n # cs) = m # sends cs"
| "sends (c # cs) = sends cs"

fun deliveries :: "call list \<Rightarrow> nat list list" where
  "deliveries [] = []"
| "deliveries (Pn_delivery tag # cs) = tag # deliveries cs"
| "deliveries (c # cs) = deliveries cs"

text \<open>A call with the size of the byte range left out.\<close>

fun unsized :: "call \<Rightarrow> call" where
  "unsized (Pn_link_send m n) = Pn_link_send m 0"
| "unsized c = c"

text \<open>The three calls of one turn of the \<^verbatim>\<open>PN_LINK_FLOW\<close> loop for sequence number \<open>k\<close>.\<close>

definition send_calls :: "int \<Rightarrow> call list" where
  "send_calls k = [Pn_delivery (int_bytes k), Pn_link_send (sequence_message k) 0, Pn_link_advance]"

text \<open>The state a run has reached, when it has neither exited nor failed to return.\<close>

definition state_after :: "library \<Rightarrow> app_data \<Rightarrow> event list \<Rightarrow> app_data option" where
  "state_after lib s es = (case run lib s es of Some (Inr out) \<Rightarrow> Some (state_of out) | _ \<Rightarrow> None)"

subsection \<open>Conditions on the library and on the events\<close>


text \<open>
  The event is a \<^verbatim>\<open>PN_CONNECTION_REMOTE_OPEN\<close> on which \<^verbatim>\<open>amqp_destination_address\<close>,
  given the prefix in force after the property lookup, returns a negative value.
\<close>

definition resolution_fails :: "library \<Rightarrow> app_data \<Rightarrow> event \<Rightarrow> bool" where
  "resolution_fails lib s e =
     (case e of
        PN_CONNECTION_REMOTE_OPEN rc buf \<Rightarrow>
          fst (amqp_destination_address lib (amqp_address s) (if rc > 0 then buf else amqp_topic_prefix s)) < 0
      | _ \<Rightarrow> False)"

text \<open>
  The encoded form of a message has the size \<open>n\<close>: \<^verbatim>\<open>pn_message_encode\<close> reports an
  overflow on every smaller buffer and writes \<open>n\<close> bytes into any other.
\<close>

definition encodes_to :: "(nat \<Rightarrow> encode_result) \<Rightarrow> nat \<Rightarrow> bool" where
  "encodes_to enc n = (\<forall>cap. enc cap = (if n \<le> cap then Encoded n else Overflow))"

text \<open>
  The size of the encode buffer: \<^verbatim>\<open>app->message_buffer.size\<close>, which is 0 in the
  zero-initialised \<^verbatim>\<open>app_data_t\<close>.
\<close>

definition buffer_size :: "app_data \<Rightarrow> nat" where
  "buffer_size s = (case message_buffer s of None \<Rightarrow> 0 | Some size_now \<Rightarrow> size_now)"



text \<open>Every message has an encoded form, of the size \<open>sz\<close> gives.\<close>

definition codec_sizes :: "encoder \<Rightarrow> (message \<Rightarrow> nat) \<Rightarrow> bool" where
  "codec_sizes enc sz = (\<forall>m. encodes_to (enc m) (sz m))"

text \<open>
  A condition on the broker, stated along the run: every \<^verbatim>\<open>PN_DELIVERY\<close> event with the
  state \<^verbatim>\<open>PN_ACCEPTED\<close> is handled while fewer outcomes have been counted than messages
  sent, which is the case when each delivery the producer issued is accepted at most
  once and nothing else is.
\<close>

fun acks_follow_sends :: "library \<Rightarrow> app_data \<Rightarrow> event list \<Rightarrow> bool" where
  "acks_follow_sends lib s [] = True"
| "acks_follow_sends lib s (e # es) =
     ((case e of
         PN_DELIVERY remote_state cond \<Rightarrow> remote_state = PN_ACCEPTED \<longrightarrow> acknowledged s < sent s
       | _ \<Rightarrow> True)
      \<and> (case handle lib s e of
           Some (Inr (True, s1)) \<Rightarrow> acks_follow_sends lib s1 es
         | _ \<Rightarrow> True))"

text \<open>
  The events of a session without failure: the handshake, credit, and accepted
  outcomes. \<open>granted\<close> is the credit such an event offers the send loop, and
  \<open>accepted\<close> counts the accepted outcomes.
\<close>

fun quiet :: "event \<Rightarrow> bool" where
  "quiet PN_CONNECTION_INIT = True"
| "quiet (PN_CONNECTION_REMOTE_OPEN rc buf) = True"
| "quiet (PN_LINK_FLOW credit) = True"
| "quiet (PN_DELIVERY remote_state cond) = (remote_state = PN_ACCEPTED)"
| "quiet (PN_EVENT_OTHER name) = True"
| "quiet e = False"

fun granted :: "event \<Rightarrow> int" where
  "granted (PN_LINK_FLOW credit) = max 0 credit"
| "granted e = 0"

fun accepted :: "event \<Rightarrow> int" where
  "accepted (PN_DELIVERY remote_state cond) = (if remote_state = PN_ACCEPTED then 1 else 0)"
| "accepted e = 0"

text \<open>No event of the run is a \<^verbatim>\<open>PN_CONNECTION_REMOTE_OPEN\<close> on which the resolution fails.\<close>

fun resolves :: "library \<Rightarrow> app_data \<Rightarrow> event list \<Rightarrow> bool" where
  "resolves lib s [] = True"
| "resolves lib s (e # es) =
     (\<not> resolution_fails lib s e
      \<and> (case handle lib s e of
           Some (Inr (True, s1)) \<Rightarrow> resolves lib s1 es
         | _ \<Rightarrow> True))"

subsection \<open>Sample values\<close>

text \<open>
  Modelled from the spec: \<^verbatim>\<open>amqp_destination_address\<close> of \<^verbatim>\<open>util.h\<close>, whose source is not
  in the repository's files. The spec's Address Resolver concatenates prefix and topic
  name and signals failure when the result would exceed the maximum address length.
\<close>

definition spec_destination_address :: "nat \<Rightarrow> string \<Rightarrow> string \<Rightarrow> int \<times> string" where
  "spec_destination_address max_addr addr prefix =
     (if max_addr < length prefix + length addr then (- 1, []) else (int (length prefix + length addr), prefix @ addr))"

text \<open>A codec under which a message takes 150 bytes more than its body.\<close>

definition sample_encoder :: encoder where
  "sample_encoder m cap = (if length (body m) + 150 \<le> cap then Encoded (length (body m) + 150) else Overflow)"

definition sample_library :: library where
  "sample_library = \<lparr>pn_message_encode = sample_encoder, amqp_destination_address = spec_destination_address 1060\<rparr>"

text \<open>A codec that fails with \<^verbatim>\<open>PN_ERR\<close> (-2) on every message.\<close>

definition failing_library :: library where
  "failing_library = \<lparr>pn_message_encode = (\<lambda>m cap. Failed (- 2) ''PN_ERR''), amqp_destination_address = spec_destination_address 1060\<rparr>"

definition sample_app :: "int \<Rightarrow> app_data" where
  "sample_app count = initial_app count ''my_topic'' ''producer:4711'' None None"

definition no_condition :: condition where
  "no_condition = \<lparr>is_set = False, cond_name = [], cond_description = None, cond_info = None\<rparr>"

definition sample_condition :: condition where
  "sample_condition =
     \<lparr>is_set = True, cond_name = ''amqp:unauthorized-access'', cond_description = Some ''denied'',
      cond_info = Some (\<lambda>len. if 300 \<le> len then Format_done ''{reason=1}'' else Format_overflow)\<rparr>"

text \<open>A condition with a name only: no description and no info.\<close>

definition named_condition :: condition where
  "named_condition =
     \<lparr>is_set = True, cond_name = ''amqp:connection:forced'', cond_description = None, cond_info = None\<rparr>"

text \<open>The delivery state \<^verbatim>\<open>PN_REJECTED\<close> of \<^verbatim>\<open>proton/disposition.h\<close>.\<close>

definition PN_REJECTED :: nat where
  "PN_REJECTED = 0x25"

section \<open>Properties of the functions\<close>

subsection \<open>The retry loops\<close>


lemma check_condition_unset: "\<not> is_set cond \<Longrightarrow> check_condition e cond s = Some s"
  by (simp add: check_condition_def)

lemma format_loop_after:
  "(\<forall>j<k. fmt (len * 2 ^ j) = Format_overflow) \<Longrightarrow> fmt (len * 2 ^ k) = Format_done buf
   \<Longrightarrow> format_loop fmt len = Some buf"
proof (induction k arbitrary: len)
  case 0
  then show ?case
    by (simp add: format_loop.simps [of fmt len])
next
  case (Suc k)
  from Suc.prems(1) have first: "fmt len = Format_overflow"
    by (metis mult.right_neutral power_0 zero_less_Suc)
  have rest: "\<forall>j<k. fmt (len * 2 * 2 ^ j) = Format_overflow"
  proof (intro allI impI)
    fix j assume "j < k"
    then have "Suc j < Suc k" by simp
    with Suc.prems(1) have "fmt (len * 2 ^ Suc j) = Format_overflow" by blast
    then show "fmt (len * 2 * 2 ^ j) = Format_overflow" by (simp add: mult.assoc)
  qed
  from Suc.prems(2) have stop: "fmt (len * 2 * 2 ^ k) = Format_done buf"
    by (simp add: mult.assoc)
  have "format_loop fmt len = format_loop fmt (len * 2)"
    using first by (simp add: format_loop.simps [of fmt len])
  also have "\<dots> = Some buf"
    using Suc.IH [OF rest stop] .
  finally show ?case .
qed

lemma check_condition_no_info:
  assumes "is_set cond" and "cond_info cond = None"
  shows "check_condition e cond s
     = Some (s\<lparr>trace := trace s @ [Stderr (pn_event_type_name e @ '': '' @ cond_name cond @ '': ''
                                           @ (case cond_description cond of None \<Rightarrow> ''(null)'' | Some text \<Rightarrow> text)
                                           @ newline),
                                   Pn_connection_close],
               exit_code := 1\<rparr>)"
  using assms by (simp add: check_condition_def emits_def Let_def printed_def)

lemma check_condition_info:
  assumes "is_set cond" and "cond_info cond = Some info"
    and "\<forall>j<k. info (128 * 2 ^ j) = Format_overflow" and "info (128 * 2 ^ k) = Format_done buf"
  shows "check_condition e cond s
     = Some (s\<lparr>trace := trace s @ [Stderr (pn_event_type_name e @ '': '' @ cond_name cond @ '': ''
                                           @ (case cond_description cond of None \<Rightarrow> ''(null)'' | Some text \<Rightarrow> text)
                                           @ newline),
                                   Stderr (''Err info: '' @ buf @ newline),
                                   Pn_connection_close],
               exit_code := 1\<rparr>)"
proof -
  from format_loop_after [OF assms(3,4)] have "format_loop info 128 = Some buf" .
  with assms(1,2) show ?thesis
    by (simp add: check_condition_def emits_def Let_def printed_def)
qed


lemma sends_append [simp]: "sends (xs @ ys) = sends xs @ sends ys"
  by (induction xs rule: sends.induct) auto

lemma deliveries_append [simp]: "deliveries (xs @ ys) = deliveries xs @ deliveries ys"
  by (induction xs rule: deliveries.induct) auto

lemma check_condition_keeps:
  assumes "check_condition e cond s = Some s'"
  shows "sent s' = sent s" "acknowledged s' = acknowledged s" "message_count s' = message_count s"
    "message_buffer s' = message_buffer s" "sends (trace s') = sends (trace s)"
    "deliveries (trace s') = deliveries (trace s)" "exit_code s = 1 \<Longrightarrow> exit_code s' = 1"
  using assms
  by (auto simp: check_condition_def emits_def Let_def split: option.splits if_splits)

subsection \<open>The encode loop and the send loop\<close>

lemma encode_loop_after:
  "(\<forall>j<k. enc (cap * 2 ^ j) = Overflow) \<Longrightarrow> enc (cap * 2 ^ k) \<noteq> Overflow
   \<Longrightarrow> encode_loop enc cap = Some (cap * 2 ^ k, enc (cap * 2 ^ k))"
proof (induction k arbitrary: cap)
  case 0
  then show ?case
    by (cases "enc cap") (simp_all add: encode_loop.simps [of enc cap])
next
  case (Suc k)
  from Suc.prems(1) have first: "enc cap = Overflow"
    by (metis mult.right_neutral power_0 zero_less_Suc)
  have rest: "\<forall>j<k. enc (cap * 2 * 2 ^ j) = Overflow"
  proof (intro allI impI)
    fix j assume "j < k"
    then have "Suc j < Suc k" by simp
    with Suc.prems(1) have "enc (cap * 2 ^ Suc j) = Overflow" by blast
    then show "enc (cap * 2 * 2 ^ j) = Overflow" by (simp add: mult.assoc)
  qed
  from Suc.prems(2) have stop: "enc (cap * 2 * 2 ^ k) \<noteq> Overflow"
    by (simp add: mult.assoc)
  have "encode_loop enc cap = encode_loop enc (cap * 2)"
    using first by (simp add: encode_loop.simps [of enc cap])
  also have "\<dots> = Some (cap * 2 * 2 ^ k, enc (cap * 2 * 2 ^ k))"
    using Suc.IH [OF rest stop] .
  finally show ?case by (simp add: mult.assoc)
qed

lemma encode_loop_result:
  assumes "encode_loop enc cap = Some res"
  shows "\<exists>k. fst res = cap * 2 ^ k \<and> (\<forall>j<k. enc (cap * 2 ^ j) = Overflow)
             \<and> snd res = enc (fst res) \<and> snd res \<noteq> Overflow"
  using assms
proof (induction rule: encode_loop.raw_induct [rotated 1, consumes 1])
  case (1 loop enc cap res)
  show ?case
  proof (cases "enc cap")
    case (Encoded n)
    with 1(2) have "res = (cap, Encoded n)" by simp
    with Encoded show ?thesis by (intro exI [of _ 0]) simp
  next
    case Overflow
    with 1(2) have "loop enc (cap * 2) = Some res" by simp
    from 1(1) [OF this] obtain k where k: "fst res = cap * 2 * 2 ^ k"
      "\<forall>j<k. enc (cap * 2 * 2 ^ j) = Overflow" "snd res = enc (fst res)" "snd res \<noteq> Overflow"
      by blast
    have "\<forall>j<Suc k. enc (cap * 2 ^ j) = Overflow"
    proof (intro allI impI)
      fix j assume j: "j < Suc k"
      show "enc (cap * 2 ^ j) = Overflow"
      proof (cases j)
        case 0
        with Overflow show ?thesis by simp
      next
        case (Suc i)
        with j k(2) have "enc (cap * 2 * 2 ^ i) = Overflow" by simp
        with Suc show ?thesis by (simp add: mult.assoc)
      qed
    qed
    with k show ?thesis by (intro exI [of _ "Suc k"]) (simp add: mult.assoc)
  next
    case (Failed err description)
    with 1(2) have "res = (cap, Failed err description)" by simp
    with Failed show ?thesis by (intro exI [of _ 0]) simp
  qed
qed

lemma encodes_to_loop:
  assumes enc: "encodes_to enc n" and pos: "0 < cap"
  shows "\<exists>k. encode_loop enc cap = Some (cap * 2 ^ k, Encoded n) \<and> n \<le> cap * 2 ^ k
             \<and> (\<forall>j<k. cap * 2 ^ j < n)"
proof -
  have "n < 2 ^ n" by (rule less_exp)
  also have "\<dots> \<le> cap * 2 ^ n" using pos by simp
  finally have ex: "\<exists>k. n \<le> cap * 2 ^ k" by (auto intro: less_imp_le)
  define k where "k = (LEAST k. n \<le> cap * 2 ^ k)"
  have fit: "n \<le> cap * 2 ^ k"
    unfolding k_def using ex by (rule LeastI_ex)
  have small: "\<forall>j<k. cap * 2 ^ j < n"
    using not_less_Least [of _ "\<lambda>k. n \<le> cap * 2 ^ k"] unfolding k_def
    by (auto simp: not_le)
  have "\<forall>j<k. enc (cap * 2 ^ j) = Overflow"
    using small enc by (auto simp: encodes_to_def)
  moreover have "enc (cap * 2 ^ k) = Encoded n"
    using fit enc by (simp add: encodes_to_def)
  ultimately have "encode_loop enc cap = Some (cap * 2 ^ k, Encoded n)"
    using encode_loop_after [of k enc cap] by simp
  with fit small show ?thesis by blast
qed

lemma encode_message_result:
  assumes "encode_message enc s = Some (Inr (s', m, n))"
  shows "m = sequence_message (sent s)"
    and "\<exists>k. s' = s\<lparr>message_buffer := Some ((case message_buffer s of None \<Rightarrow> 128 | Some c \<Rightarrow> c) * 2 ^ k)\<rparr>
            \<and> enc m ((case message_buffer s of None \<Rightarrow> 128 | Some c \<Rightarrow> c) * 2 ^ k) = Encoded n"
proof -
  let ?cap = "case message_buffer s of None \<Rightarrow> 128 | Some c \<Rightarrow> c"
  from assms obtain size1 where loop: "encode_loop (enc (sequence_message (sent s))) ?cap = Some (size1, Encoded n)"
    and s': "s' = s\<lparr>message_buffer := Some size1\<rparr>" and m: "m = sequence_message (sent s)"
    by (auto simp: encode_message_def Let_def split: option.splits encode_result.splits)
  from encode_loop_result [OF loop] obtain k where "size1 = ?cap * 2 ^ k"
    "Encoded n = enc (sequence_message (sent s)) size1"
    by auto
  with s' m show "m = sequence_message (sent s)"
    and "\<exists>k. s' = s\<lparr>message_buffer := Some (?cap * 2 ^ k)\<rparr> \<and> enc m (?cap * 2 ^ k) = Encoded n"
    by auto
qed

lemma encode_message_buffer:
  assumes "encode_message enc s = Some (Inr (s', m, n))"
  shows "buffer_size s \<le> buffer_size s'"
    and "message_buffer s \<noteq> Some 0 \<Longrightarrow> message_buffer s' \<noteq> Some 0"
    and "s' = s\<lparr>message_buffer := message_buffer s'\<rparr>"
  using encode_message_result(2) [OF assms]
  by (auto simp: buffer_size_def split: option.splits)

lemma encode_message_length:
  assumes "\<forall>cap len. enc (sequence_message (sent s)) cap = Encoded len \<longrightarrow> len \<le> cap"
    and "encode_message enc s = Some (Inr (s', m, n))"
  shows "n \<le> buffer_size s'"
proof -
  from encode_message_result [OF assms(2)] obtain k
    where "m = sequence_message (sent s)"
      and "s' = s\<lparr>message_buffer := Some ((case message_buffer s of None \<Rightarrow> 128 | Some c \<Rightarrow> c) * 2 ^ k)\<rparr>"
      and "enc m ((case message_buffer s of None \<Rightarrow> 128 | Some c \<Rightarrow> c) * 2 ^ k) = Encoded n"
    by blast
  with assms(1) show ?thesis
    by (simp add: buffer_size_def)
qed

lemma link_flow_loop_result:
  "link_flow_loop enc credit s = Some (Inr s') \<Longrightarrow>
     sent s' = sent s + max 0 (min credit (message_count s - sent s))
     \<and> (\<exists>new. trace s' = trace s @ new \<and> map unsized new = concat (map send_calls [sent s + 1..sent s']))
     \<and> buffer_size s \<le> buffer_size s'
     \<and> (message_buffer s \<noteq> Some 0 \<longrightarrow> message_buffer s' \<noteq> Some 0)
     \<and> s' = s\<lparr>sent := sent s', trace := trace s', message_buffer := message_buffer s'\<rparr>"
proof (induction enc credit s rule: link_flow_loop.induct)
  case (1 enc credit s)
  show ?case
  proof (cases "credit > 0 \<and> sent s < message_count s")
    case False
    with "1.prems" have "s' = s"
      by (simp add: link_flow_loop.simps [of enc credit s])
    with False show ?thesis by auto
  next
    case True
    define s2 where "s2 = emits [Pn_delivery (int_bytes (sent (s\<lparr>sent := sent s + 1\<rparr>)))] (s\<lparr>sent := sent s + 1\<rparr>)"
    from "1.prems" True obtain s3 m n where enc: "encode_message enc s2 = Some (Inr (s3, m, n))"
      and rest: "link_flow_loop enc (credit - 1) (emits [Pn_link_send m n, Pn_link_advance] s3) = Some (Inr s')"
      by (auto simp: link_flow_loop.simps [of enc credit s] Let_def s2_def
          split: option.splits sum.splits)
    define s4 where "s4 = emits [Pn_link_send m n, Pn_link_advance] s3"
    have s2: "sent s2 = sent s + 1" "message_count s2 = message_count s"
      "trace s2 = trace s @ [Pn_delivery (int_bytes (sent s + 1))]"
      "message_buffer s2 = message_buffer s" "buffer_size s2 = buffer_size s"
      "s2 = s\<lparr>sent := sent s2, trace := trace s2\<rparr>"
      by (simp_all add: s2_def emits_def buffer_size_def)
    have m: "m = sequence_message (sent s + 1)"
      using encode_message_result(1) [OF enc] s2 by simp
    note s3 = encode_message_buffer [OF enc]
    obtain mb where s3_eq: "s3 = s2\<lparr>message_buffer := mb\<rparr>"
      using s3(3) by blast
    have s4: "sent s4 = sent s + 1" "message_count s4 = message_count s"
      "trace s4 = trace s @ [Pn_delivery (int_bytes (sent s + 1)), Pn_link_send m n, Pn_link_advance]"
      "message_buffer s4 = message_buffer s3" "buffer_size s4 = buffer_size s3"
      "s4 = s\<lparr>sent := sent s4, trace := trace s4, message_buffer := message_buffer s4\<rparr>"
      by (simp_all add: s4_def s3_eq s2_def emits_def buffer_size_def)
    have IH: "sent s' = sent s4 + max 0 (min (credit - 1) (message_count s4 - sent s4))
       \<and> (\<exists>new. trace s' = trace s4 @ new \<and> map unsized new = concat (map send_calls [sent s4 + 1..sent s']))
       \<and> buffer_size s4 \<le> buffer_size s'
       \<and> (message_buffer s4 \<noteq> Some 0 \<longrightarrow> message_buffer s' \<noteq> Some 0)
       \<and> s' = s4\<lparr>sent := sent s', trace := trace s', message_buffer := message_buffer s'\<rparr>"
      unfolding s4_def
      by (rule "1.IH" [OF True refl refl enc [unfolded s2_def] refl refl refl rest])
    then obtain new where new: "trace s' = trace s4 @ new"
      "map unsized new = concat (map send_calls [sent s4 + 1..sent s'])"
      by blast
    have sent': "sent s' = sent s + max 0 (min credit (message_count s - sent s))"
      using IH True s4 by auto
    have le: "sent s + 1 \<le> sent s'"
      using IH s4 by auto
    have "trace s' = trace s @ ([Pn_delivery (int_bytes (sent s + 1)), Pn_link_send m n, Pn_link_advance] @ new)"
      using new s4 by simp
    moreover have "map unsized ([Pn_delivery (int_bytes (sent s + 1)), Pn_link_send m n, Pn_link_advance] @ new)
        = concat (map send_calls [sent s + 1..sent s'])"
      using new(2) le s4(1) m by (simp add: upto_rec1 [of "sent s + 1" "sent s'"] send_calls_def)
    ultimately have tr: "\<exists>new. trace s' = trace s @ new \<and> map unsized new = concat (map send_calls [sent s + 1..sent s'])"
      by blast
    have buf: "buffer_size s \<le> buffer_size s'"
      using IH s3(1) s2(5) s4(5) by linarith
    have nz: "message_buffer s \<noteq> Some 0 \<longrightarrow> message_buffer s' \<noteq> Some 0"
      using IH s3(2) s2(4) s4(4) by auto
    have "s' = s4\<lparr>sent := sent s', trace := trace s', message_buffer := message_buffer s'\<rparr>"
      using IH by blast
    then have eq: "s' = s\<lparr>sent := sent s', trace := trace s', message_buffer := message_buffer s'\<rparr>"
      by (subst (asm) s4(6)) simp
    from sent' tr buf nz eq show ?thesis by blast
  qed
qed

lemma encode_message_returns:
  assumes "encodes_to (enc (sequence_message (sent s))) n" and "message_buffer s \<noteq> Some 0"
  shows "\<exists>k. encode_message enc s
            = Some (Inr (s\<lparr>message_buffer := Some ((case message_buffer s of None \<Rightarrow> 128 | Some c \<Rightarrow> c) * 2 ^ k)\<rparr>,
                         sequence_message (sent s), n))
          \<and> n \<le> (case message_buffer s of None \<Rightarrow> 128 | Some c \<Rightarrow> c) * 2 ^ k
          \<and> (\<forall>j<k. (case message_buffer s of None \<Rightarrow> 128 | Some c \<Rightarrow> c) * 2 ^ j < n)"
proof -
  let ?cap = "case message_buffer s of None \<Rightarrow> 128 | Some c \<Rightarrow> c"
  have "0 < ?cap" using assms(2) by (cases "message_buffer s") auto
  from encodes_to_loop [OF assms(1) this] obtain k
    where "encode_loop (enc (sequence_message (sent s))) ?cap = Some (?cap * 2 ^ k, Encoded n)"
      and "n \<le> ?cap * 2 ^ k" and "\<forall>j<k. ?cap * 2 ^ j < n"
    by blast
  then show ?thesis
    by (intro exI [of _ k]) (simp add: encode_message_def Let_def)
qed

lemma encode_message_sizes:
  assumes "encode_message enc s = Some (Inr (s', m, n))" and "buffer_size s' < 2 ^ 64"
  shows "\<exists>k. buffer_size s' = (case message_buffer s of None \<Rightarrow> 128 | Some c \<Rightarrow> c) * 2 ^ k
           \<and> (\<forall>j\<le>k. (case message_buffer s of None \<Rightarrow> 128 | Some c \<Rightarrow> c) * 2 ^ j < 2 ^ 64)"
proof -
  let ?cap = "case message_buffer s of None \<Rightarrow> 128 | Some c \<Rightarrow> c"
  from encode_message_result(2) [OF assms(1)] obtain k
    where "s' = s\<lparr>message_buffer := Some (?cap * 2 ^ k)\<rparr>"
    by blast
  then have size: "buffer_size s' = ?cap * 2 ^ k"
    by (simp add: buffer_size_def)
  have "?cap * 2 ^ j < 2 ^ 64" if "j \<le> k" for j
  proof -
    from that have "(2::nat) ^ j \<le> 2 ^ k" by simp
    then have "?cap * 2 ^ j \<le> ?cap * 2 ^ k" by (rule mult_le_mono2)
    also have "\<dots> < 2 ^ 64" using size assms(2) by (simp only:)
    finally show ?thesis .
  qed
  with size show ?thesis by blast
qed

lemma encode_message_in_range:
  assumes "encodes_to (enc (sequence_message (sent s))) n" and "message_buffer s \<noteq> Some 0"
    and "n \<le> 2 ^ 63" and "buffer_size s < 2 ^ 64"
  shows "\<exists>k. encode_message enc s
            = Some (Inr (s\<lparr>message_buffer := Some ((case message_buffer s of None \<Rightarrow> 128 | Some c \<Rightarrow> c) * 2 ^ k)\<rparr>,
                         sequence_message (sent s), n))
          \<and> n \<le> (case message_buffer s of None \<Rightarrow> 128 | Some c \<Rightarrow> c) * 2 ^ k
          \<and> (\<forall>j<k. (case message_buffer s of None \<Rightarrow> 128 | Some c \<Rightarrow> c) * 2 ^ j < n)
          \<and> (case message_buffer s of None \<Rightarrow> 128 | Some c \<Rightarrow> c) * 2 ^ k < 2 ^ 64"
proof -
  let ?cap = "case message_buffer s of None \<Rightarrow> 128 | Some c \<Rightarrow> c"
  from encode_message_returns [of enc s n] assms(1,2) obtain k
    where r: "encode_message enc s = Some (Inr (s\<lparr>message_buffer := Some (?cap * 2 ^ k)\<rparr>, sequence_message (sent s), n))"
      and fit: "n \<le> ?cap * 2 ^ k" and small: "\<forall>j<k. ?cap * 2 ^ j < n"
    by blast
  have start: "?cap < 2 ^ 64"
    using assms(4) by (cases "message_buffer s") (simp_all add: buffer_size_def)
  have "?cap * 2 ^ k < 2 ^ 64"
  proof (cases k)
    case 0
    with start show ?thesis by simp
  next
    case (Suc j)
    define half where "half = ?cap * 2 ^ j"
    from Suc small have "half < n" by (simp add: half_def)
    with assms(3) have "half < 2 ^ 63" by simp
    then have "2 * half < 2 ^ 64" by simp
    moreover have "?cap * 2 ^ k = 2 * half"
      using Suc by (simp add: half_def)
    ultimately show ?thesis by simp
  qed
  with r fit small show ?thesis by blast
qed

lemma link_flow_loop_returns:
  "codec_sizes enc sz \<Longrightarrow> message_buffer s \<noteq> Some 0 \<Longrightarrow> \<exists>s'. link_flow_loop enc credit s = Some (Inr s')"
proof (induction enc credit s rule: link_flow_loop.induct)
  case (1 enc credit s)
  show ?case
  proof (cases "credit > 0 \<and> sent s < message_count s")
    case False
    then show ?thesis by (auto simp: link_flow_loop.simps [of enc credit s])
  next
    case True
    define s2 where "s2 = emits [Pn_delivery (int_bytes (sent (s\<lparr>sent := sent s + 1\<rparr>)))] (s\<lparr>sent := sent s + 1\<rparr>)"
    have "message_buffer s2 \<noteq> Some 0"
      using "1.prems"(2) by (simp add: s2_def emits_def)
    moreover have "encodes_to (enc (sequence_message (sent s2))) (sz (sequence_message (sent s2)))"
      using "1.prems"(1) by (simp add: codec_sizes_def)
    ultimately obtain s3 m n where enc: "encode_message enc s2 = Some (Inr (s3, m, n))"
      using encode_message_returns by blast
    have "message_buffer (emits [Pn_link_send m n, Pn_link_advance] s3) \<noteq> Some 0"
      using encode_message_buffer(2) [OF enc] \<open>message_buffer s2 \<noteq> Some 0\<close>
      by (simp add: emits_def)
    from "1.IH" [OF True refl refl enc [unfolded s2_def] refl refl refl "1.prems"(1) this]
    obtain s' where "link_flow_loop enc (credit - 1) (emits [Pn_link_send m n, Pn_link_advance] s3) = Some (Inr s')"
      by blast
    with True enc show ?thesis
      by (simp add: link_flow_loop.simps [of enc credit s] Let_def s2_def)
  qed
qed

lemma check_condition_frame:
  assumes "check_condition e cond s = Some s'"
  shows "\<exists>new ec. s' = s\<lparr>trace := trace s @ new, exit_code := ec\<rparr> \<and> sends new = [] \<and> deliveries new = []
           \<and> (is_set cond \<longrightarrow> ec = 1 \<and> new \<noteq> [] \<and> last new = Pn_connection_close)
           \<and> (\<not> is_set cond \<longrightarrow> ec = exit_code s \<and> new = [])"
proof (cases "is_set cond")
  case True
  with assms show ?thesis
    by (auto simp: check_condition_def emits_def Let_def split: option.splits)
next
  case False
  with assms have "s' = s" by (simp add: check_condition_def)
  then have "s' = s\<lparr>trace := trace s @ [], exit_code := exit_code s\<rparr>" by simp
  with False show ?thesis by (intro exI [of _ "[]"] exI [of _ "exit_code s"]) simp
qed

text \<open>What a step of the handler leaves as it is, or only lets grow.\<close>

lemma handle_frame:
  assumes "handle lib s e = Some (Inr (b, s'))"
  shows "message_count s' = message_count s"
    and "sent s \<le> sent s'"
    and "acknowledged s \<le> acknowledged s'"
    and "buffer_size s \<le> buffer_size s'"
    and "exit_code s = 1 \<Longrightarrow> exit_code s' = 1"
    and "sent s \<le> message_count s \<Longrightarrow> sent s' \<le> message_count s"
    and "message_buffer s \<noteq> Some 0 \<Longrightarrow> message_buffer s' \<noteq> Some 0"
    and "\<exists>new. trace s' = trace s @ new"
proof -
  have "message_count s' = message_count s \<and> sent s \<le> sent s' \<and> acknowledged s \<le> acknowledged s'
      \<and> buffer_size s \<le> buffer_size s' \<and> (exit_code s = 1 \<longrightarrow> exit_code s' = 1)
      \<and> (sent s \<le> message_count s \<longrightarrow> sent s' \<le> message_count s)
      \<and> (message_buffer s \<noteq> Some 0 \<longrightarrow> message_buffer s' \<noteq> Some 0)
      \<and> (\<exists>new. trace s' = trace s @ new)"
  proof (cases e)
    case (PN_LINK_FLOW credit)
    with assms have loop: "link_flow_loop (pn_message_encode lib) credit s = Some (Inr s')"
      by (auto simp: handle.simps split: option.splits sum.splits)
    note r = link_flow_loop_result [OF loop]
    from r have eq: "s' = s\<lparr>sent := sent s', trace := trace s', message_buffer := message_buffer s'\<rparr>"
      by blast
    have "message_count s' = message_count s" "acknowledged s' = acknowledged s" "exit_code s' = exit_code s"
      by (subst eq, simp)+
    with r show ?thesis by auto
  next
    case (PN_DELIVERY remote_state cond)
    with assms show ?thesis
      by (auto simp: handle.simps emits_def Let_def buffer_size_def
          split: option.splits if_splits dest!: check_condition_frame)
  qed (use assms in \<open>auto simp: handle.simps emits_def Let_def buffer_size_def
          set_topic_prefix_from_connection_def
          split: option.splits if_splits prod.splits dest!: check_condition_frame\<close>)
  then show "message_count s' = message_count s"
    and "sent s \<le> sent s'"
    and "acknowledged s \<le> acknowledged s'"
    and "buffer_size s \<le> buffer_size s'"
    and "exit_code s = 1 \<Longrightarrow> exit_code s' = 1"
    and "sent s \<le> message_count s \<Longrightarrow> sent s' \<le> message_count s"
    and "message_buffer s \<noteq> Some 0 \<Longrightarrow> message_buffer s' \<noteq> Some 0"
    and "\<exists>new. trace s' = trace s @ new"
    by blast+
qed

subsection \<open>Runs\<close>

lemma run_append:
  "run lib s (pre @ es) =
     (case run lib s pre of Some (Inr (Waiting s1)) \<Rightarrow> run lib s1 es | r \<Rightarrow> r)"
  by (induction pre arbitrary: s) (auto split: option.splits sum.splits)

lemma run_frame:
  assumes "run lib s es = Some (Inr out)"
  shows "message_count (state_of out) = message_count s"
    and "sent s \<le> sent (state_of out)"
    and "acknowledged s \<le> acknowledged (state_of out)"
    and "buffer_size s \<le> buffer_size (state_of out)"
    and "exit_code s = 1 \<Longrightarrow> exit_code (state_of out) = 1"
    and "sent s \<le> message_count s \<Longrightarrow> sent (state_of out) \<le> message_count s"
    and "message_buffer s \<noteq> Some 0 \<Longrightarrow> message_buffer (state_of out) \<noteq> Some 0"
proof -
  have "message_count (state_of out) = message_count s \<and> sent s \<le> sent (state_of out)
      \<and> acknowledged s \<le> acknowledged (state_of out) \<and> buffer_size s \<le> buffer_size (state_of out)
      \<and> (exit_code s = 1 \<longrightarrow> exit_code (state_of out) = 1)
      \<and> (sent s \<le> message_count s \<longrightarrow> sent (state_of out) \<le> message_count s)
      \<and> (message_buffer s \<noteq> Some 0 \<longrightarrow> message_buffer (state_of out) \<noteq> Some 0)"
    using assms
  proof (induction es arbitrary: s)
    case Nil
    then show ?case by auto
  next
    case (Cons e es)
    from Cons.prems obtain b s1 where step: "handle lib s e = Some (Inr (b, s1))"
      and rest: "(if b then run lib s1 es else Some (Inr (Returned s1))) = Some (Inr out)"
      by (auto split: option.splits sum.splits)
    note f = handle_frame [OF step]
    show ?case
    proof (cases b)
      case True
      with rest have "run lib s1 es = Some (Inr out)" by simp
      from Cons.IH [OF this] f show ?thesis by auto
    next
      case False
      with rest have "out = Returned s1" by simp
      with f show ?thesis by auto
    qed
  qed
  then show "message_count (state_of out) = message_count s"
    and "sent s \<le> sent (state_of out)"
    and "acknowledged s \<le> acknowledged (state_of out)"
    and "buffer_size s \<le> buffer_size (state_of out)"
    and "exit_code s = 1 \<Longrightarrow> exit_code (state_of out) = 1"
    and "sent s \<le> message_count s \<Longrightarrow> sent (state_of out) \<le> message_count s"
    and "message_buffer s \<noteq> Some 0 \<Longrightarrow> message_buffer (state_of out) \<noteq> Some 0"
    by blast+
qed

lemma handle_keeps_sent:
  assumes "handle lib s e = Some (Inr (b, s'))" and "\<forall>credit. e \<noteq> PN_LINK_FLOW credit"
  shows "sent s' = sent s \<and> sends (trace s') = sends (trace s) \<and> deliveries (trace s') = deliveries (trace s)
         \<and> message_buffer s' = message_buffer s"
  using assms
  by (cases e)
    (auto simp: handle.simps emits_def Let_def set_topic_prefix_from_connection_def
      split: option.splits if_splits prod.splits dest!: check_condition_frame)

lemma run_keeps_sent:
  assumes "run lib s es = Some (Inr out)" and "\<forall>e\<in>set es. \<forall>credit. e \<noteq> PN_LINK_FLOW credit"
  shows "sent (state_of out) = sent s \<and> sends (trace (state_of out)) = sends (trace s)"
  using assms
proof (induction es arbitrary: s)
  case Nil
  then show ?case by auto
next
  case (Cons e es)
  from Cons.prems(1) obtain b s1 where step: "handle lib s e = Some (Inr (b, s1))"
    and rest: "(if b then run lib s1 es else Some (Inr (Returned s1))) = Some (Inr out)"
    by (auto split: option.splits sum.splits)
  from Cons.prems(2) have "\<forall>credit. e \<noteq> PN_LINK_FLOW credit" by simp
  note k = handle_keeps_sent [OF step this]
  show ?case
  proof (cases b)
    case True
    with rest have "run lib s1 es = Some (Inr out)" by simp
    from Cons.IH [OF this] Cons.prems(2) k show ?thesis by simp
  next
    case False
    with rest have "out = Returned s1" by simp
    with k show ?thesis by simp
  qed
qed

subsection \<open>The calls of the send loop\<close>

lemma sends_unsized [simp]: "sends (map unsized cs) = sends cs"
  by (induction cs rule: sends.induct) auto

lemma deliveries_unsized [simp]: "deliveries (map unsized cs) = deliveries cs"
  by (induction cs rule: deliveries.induct) auto

lemma sends_send_calls [simp]: "sends (concat (map send_calls ks)) = map sequence_message ks"
  by (induction ks) (auto simp: send_calls_def)

lemma deliveries_send_calls [simp]: "deliveries (concat (map send_calls ks)) = map int_bytes ks"
  by (induction ks) (auto simp: send_calls_def)

text \<open>The equations that evaluate the model on the sample values.\<close>

lemmas eval_defs = sample_encoder_def sample_library_def failing_library_def sample_app_def
  initial_app_def no_condition_def sample_condition_def named_condition_def printed_def
  spec_destination_address_def
  emits_def encode_message_def sequence_message_def
  link_flow_loop.simps encode_loop.simps format_loop.simps check_condition_def
  set_topic_prefix_from_connection_def handle.simps
  show_int_def digits.simps digit_char_def int_bytes_def PN_ACCEPTED_def PN_REJECTED_def
  newline_def int_cast_def Let_def buffer_size_def





lemma handle_acknowledged:
  assumes "handle lib s e = Some (Inr (b, s'))"
  shows "acknowledged s' = acknowledged s
     \<or> (\<exists>cond. e = PN_DELIVERY PN_ACCEPTED cond) \<and> acknowledged s' = acknowledged s + 1"
proof (cases e)
  case (PN_LINK_FLOW credit)
  with assms have loop: "link_flow_loop (pn_message_encode lib) credit s = Some (Inr s')"
    by (auto simp: handle.simps split: option.splits sum.splits)
  from link_flow_loop_result [OF loop]
  have eq: "s' = s\<lparr>sent := sent s', trace := trace s', message_buffer := message_buffer s'\<rparr>"
    by blast
  have "acknowledged s' = acknowledged s" by (subst eq) simp
  then show ?thesis by simp
qed (use assms in \<open>auto simp: handle.simps emits_def Let_def set_topic_prefix_from_connection_def
      split: option.splits if_splits prod.splits dest!: check_condition_frame\<close>)

lemma run_acknowledged_le_sent:
  "acknowledged s \<le> sent s \<Longrightarrow> acks_follow_sends lib s es \<Longrightarrow> run lib s es = Some (Inr out)
   \<Longrightarrow> acknowledged (state_of out) \<le> sent (state_of out)"
proof (induction es arbitrary: s)
  case Nil
  then show ?case by auto
next
  case (Cons e es)
  from Cons.prems(3) obtain b s1 where step: "handle lib s e = Some (Inr (b, s1))"
    and rest: "(if b then run lib s1 es else Some (Inr (Returned s1))) = Some (Inr out)"
    by (auto split: option.splits sum.splits)
  have inv: "acknowledged s1 \<le> sent s1"
  proof (cases "\<exists>cond. e = PN_DELIVERY PN_ACCEPTED cond")
    case True
    with Cons.prems(2) have "acknowledged s < sent s" by auto
    with handle_acknowledged [OF step] handle_frame(2) [OF step] show ?thesis by linarith
  next
    case False
    with handle_acknowledged [OF step] have "acknowledged s1 = acknowledged s" by blast
    with handle_frame(2) [OF step] Cons.prems(1) show ?thesis by linarith
  qed
  show ?case
  proof (cases b)
    case True
    with rest have r: "run lib s1 es = Some (Inr out)" by simp
    from Cons.prems(2) step True have "acks_follow_sends lib s1 es" by simp
    from Cons.IH [OF inv this r] show ?thesis .
  next
    case False
    with rest inv show ?thesis by auto
  qed
qed

subsection \<open>Numerals and tags\<close>

lemma digit_val_digit_char: "n < 10 \<Longrightarrow> digit_val (digit_char n) = n"
proof -
  assume "n < 10"
  then have "n \<in> {0, 1, 2, 3, 4, 5, 6, 7, 8, 9}" by auto
  then show ?thesis
    by (auto simp: digit_val_def digit_char_def)
qed

lemma digit_char_not_minus: "n < 10 \<Longrightarrow> digit_char n \<noteq> CHR ''-''"
proof -
  assume "n < 10"
  then have "n \<in> {0, 1, 2, 3, 4, 5, 6, 7, 8, 9}" by auto
  then show ?thesis
    by (auto simp: digit_char_def)
qed

lemma read_nat_snoc: "read_nat (cs @ [c]) = 10 * read_nat cs + digit_val c"
  by (simp add: read_nat_def)

lemma read_nat_digits: "read_nat (digits n) = n"
proof (induction n rule: digits.induct)
  case (1 n)
  show ?case
  proof (cases "n < 10")
    case True
    then show ?thesis
      by (simp add: digits.simps [of n] read_nat_def digit_val_digit_char)
  next
    case False
    with 1 have "read_nat (digits (n div 10)) = n div 10" by simp
    with False show ?thesis
      by (simp add: digits.simps [of n] read_nat_snoc digit_val_digit_char)
  qed
qed

lemma digits_head: "\<exists>c cs. digits n = c # cs \<and> c \<noteq> CHR ''-''"
proof (induction n rule: digits.induct)
  case (1 n)
  show ?case
  proof (cases "n < 10")
    case True
    then show ?thesis
      by (simp add: digits.simps [of n] digit_char_not_minus)
  next
    case False
    with 1 obtain c cs where "digits (n div 10) = c # cs" "c \<noteq> CHR ''-''" by blast
    with False show ?thesis
      by (simp add: digits.simps [of n])
  qed
qed

lemma read_int_show_int: "read_int (show_int i) = i"
proof (cases "i < 0")
  case True
  then show ?thesis
    by (simp add: show_int_def read_int_def read_nat_digits)
next
  case False
  obtain c cs where d: "digits (nat i) = c # cs" "c \<noteq> CHR ''-''"
    using digits_head by blast
  have "read_nat (c # cs) = nat i"
    using read_nat_digits [of "nat i"] d(1) by simp
  with False d show ?thesis
    by (simp add: show_int_def read_int_def)
qed

lemma sequence_message_number: "read_int (drop 9 (body (sequence_message k))) = k"
  by (simp add: sequence_message_def read_int_show_int)

text \<open>
  The body and its terminating zero fit the \<^verbatim>\<open>sizeof("sequence_") + 12 = 22\<close> bytes that
  \<^verbatim>\<open>encode_message\<close> allocates for \<^verbatim>\<open>sprintf\<close>, for every 32-bit \<^verbatim>\<open>int\<close>.
\<close>

lemma length_digits: "0 < k \<Longrightarrow> n < 10 ^ k \<Longrightarrow> length (digits n) \<le> k"
proof (induction n arbitrary: k rule: digits.induct)
  case (1 n)
  show ?case
  proof (cases "n < 10")
    case True
    with "1.prems" show ?thesis by (simp add: digits.simps [of n])
  next
    case False
    with "1.prems" obtain j where k: "k = Suc j" by (cases k) auto
    with False "1.prems" have "0 < j" by (cases j) auto
    moreover from "1.prems"(2) k have "n div 10 < 10 ^ j"
      by (simp add: less_mult_imp_div_less mult.commute)
    ultimately have "length (digits (n div 10)) \<le> j"
      using "1.IH" [OF False] by blast
    with False k show ?thesis by (simp add: digits.simps [of n])
  qed
qed

lemma sequence_body_fits:
  assumes "- (2 ^ 31) \<le> i" and "i < 2 ^ 31"
  shows "length (body (sequence_message i)) + 1 \<le> 22"
proof -
  have "nat \<bar>i\<bar> < 10 ^ 10" using assms by simp
  then have "length (digits (nat \<bar>i\<bar>)) \<le> 10"
    by (intro length_digits) simp_all
  then show ?thesis
    by (cases "i < 0") (simp_all add: sequence_message_def show_int_def abs_if)
qed

lemma bytes_int_int_bytes:
  assumes "- (2 ^ 31) \<le> k" and "k < 2 ^ 31"
  shows "bytes_int (int_bytes k) = k"
proof -
  define u where "u = nat (k mod 2 ^ 32)"
  have u: "u < 2 ^ 32" unfolding u_def by simp
  have split: "u div 65536 = u div 256 div 256" "u div 16777216 = u div 256 div 256 div 256"
    by (simp_all add: div_mult2_eq [symmetric])
  have top: "u div 256 div 256 div 256 < 256"
    using u by (simp add: div_mult2_eq [symmetric] less_mult_imp_div_less)
  have whole: "u mod 256 + 256 * (u div 256 mod 256 + 256 * (u div 65536 mod 256 + 256 * (u div 16777216 mod 256))) = u"
    unfolding split using top by simp
  have bytes: "int_bytes k = [u mod 256, u div 256 mod 256, u div 65536 mod 256, u div 16777216 mod 256]"
    by (simp add: int_bytes_def u_def Let_def)
  have "foldr (\<lambda>b a. b + 256 * a) [u mod 256, u div 256 mod 256, u div 65536 mod 256, u div 16777216 mod 256] 0
      = u mod 256 + 256 * (u div 256 mod 256 + 256 * (u div 65536 mod 256 + 256 * (u div 16777216 mod 256)))"
    by (simp only: foldr.simps comp_apply id_apply add_0_right mult_0_right)
  also note whole
  finally have sum: "foldr (\<lambda>b a. b + 256 * a) (int_bytes k) 0 = u"
    by (simp only: bytes)
  have "(if u < 2 ^ 31 then int u else int u - 2 ^ 32) = k"
  proof (cases "0 \<le> k")
    case True
    with assms have "k mod 2 ^ 32 = k" by simp
    with True assms show ?thesis by (simp add: u_def)
  next
    case False
    have "k mod 2 ^ 32 = (k + 2 ^ 32) mod 2 ^ 32" by simp
    also have "\<dots> = k + 2 ^ 32"
    proof (rule mod_pos_pos_trivial)
      show "0 \<le> k + 2 ^ 32" using assms by simp
      show "k + 2 ^ 32 < 2 ^ 32" using False by simp
    qed
    finally have "k mod 2 ^ 32 = k + 2 ^ 32" .
    with False assms show ?thesis by (simp add: u_def)
  qed
  with sum show ?thesis
    by (simp add: bytes_int_def Let_def)
qed

subsection \<open>Sequence numbers along a run\<close>

lemma upto_join: "0 \<le> a \<Longrightarrow> a \<le> b \<Longrightarrow> [1..a] @ [a + 1..b] = [1..b]"
proof (cases "a = 0")
  case True
  then show ?thesis by simp
next
  case False
  assume "0 \<le> a" "a \<le> b"
  with False have "1 \<le> a" by simp
  from upto_split2 [OF this \<open>a \<le> b\<close>] show ?thesis by simp
qed

lemma handle_numbering:
  assumes step: "handle lib s e = Some (Inr (b, s'))" and pos: "0 \<le> sent s"
    and num: "sends (trace s) = map sequence_message [1..sent s]"
      "deliveries (trace s) = map int_bytes [1..sent s]"
  shows "sends (trace s') = map sequence_message [1..sent s']
     \<and> deliveries (trace s') = map int_bytes [1..sent s']"
proof (cases "\<exists>credit. e = PN_LINK_FLOW credit")
  case True
  then obtain credit where e: "e = PN_LINK_FLOW credit" by blast
  with step have loop: "link_flow_loop (pn_message_encode lib) credit s = Some (Inr s')"
    by (auto simp: handle.simps split: option.splits sum.splits)
  from link_flow_loop_result [OF loop] obtain new where new: "trace s' = trace s @ new"
    "map unsized new = concat (map send_calls [sent s + 1..sent s'])"
    by blast
  have "sends new = sends (map unsized new)" "deliveries new = deliveries (map unsized new)"
    by simp_all
  with new(2) have sd: "sends new = map sequence_message [sent s + 1..sent s']"
    "deliveries new = map int_bytes [sent s + 1..sent s']"
    by (simp_all del: sends_unsized deliveries_unsized)
  have le: "sent s \<le> sent s'" using handle_frame(2) [OF step] .
  have "sends (trace s') = map sequence_message ([1..sent s] @ [sent s + 1..sent s'])"
    "deliveries (trace s') = map int_bytes ([1..sent s] @ [sent s + 1..sent s'])"
    using new(1) sd num by simp_all
  then show ?thesis
    by (simp only: upto_join [OF pos le])
next
  case False
  with handle_keeps_sent [OF step] num show ?thesis by simp
qed

lemma run_numbering:
  "run lib s es = Some (Inr out) \<Longrightarrow> 0 \<le> sent s
   \<Longrightarrow> sends (trace s) = map sequence_message [1..sent s]
   \<Longrightarrow> deliveries (trace s) = map int_bytes [1..sent s]
   \<Longrightarrow> sends (trace (state_of out)) = map sequence_message [1..sent (state_of out)]
     \<and> deliveries (trace (state_of out)) = map int_bytes [1..sent (state_of out)]"
proof (induction es arbitrary: s)
  case Nil
  then show ?case by auto
next
  case (Cons e es)
  from Cons.prems(1) obtain b s1 where step: "handle lib s e = Some (Inr (b, s1))"
    and rest: "(if b then run lib s1 es else Some (Inr (Returned s1))) = Some (Inr out)"
    by (auto split: option.splits sum.splits)
  note n1 = handle_numbering [OF step Cons.prems(2,3,4)]
  have p1: "0 \<le> sent s1" using handle_frame(2) [OF step] Cons.prems(2) by simp
  show ?case
  proof (cases b)
    case True
    with rest have "run lib s1 es = Some (Inr out)" by simp
    from Cons.IH [OF this p1] n1 show ?thesis by blast
  next
    case False
    with rest n1 show ?thesis by auto
  qed
qed

subsection \<open>A session without failure\<close>

lemma send_calls_no_close: "Pn_connection_close \<notin> set (concat (map send_calls ks))"
  by (induction ks) (auto simp: send_calls_def)

lemma unsized_close: "Pn_connection_close \<in> set (map unsized cs) \<longleftrightarrow> Pn_connection_close \<in> set cs"
proof (induction cs)
  case Nil
  then show ?case by simp
next
  case (Cons c cs)
  then show ?case by (cases c) auto
qed

lemma granted_nonneg: "0 \<le> granted e"
  by (cases e) auto

lemma accepted_nonneg: "0 \<le> accepted e"
  by (cases e) auto

lemma accepted_range: "accepted e = 0 \<or> accepted e = 1"
  by (cases e) auto

lemma quiet_step:
  assumes q: "quiet e" and res: "\<not> resolution_fails lib s e"
    and codec: "codec_sizes (pn_message_encode lib) sz" and buf: "message_buffer s \<noteq> Some 0"
    and le: "sent s \<le> message_count s"
  shows "\<exists>s'. handle lib s e = Some (Inr (True, s'))
     \<and> sent s' = min (message_count s) (sent s + granted e)
     \<and> acknowledged s' = acknowledged s + accepted e
     \<and> message_count s' = message_count s
     \<and> message_buffer s' \<noteq> Some 0
     \<and> (Pn_connection_close \<in> set (trace s') \<longleftrightarrow>
          Pn_connection_close \<in> set (trace s) \<or> accepted e = 1 \<and> acknowledged s + 1 = message_count s)"
proof (cases e)
  case PN_CONNECTION_INIT
  with buf le show ?thesis
    by (auto simp: handle.simps emits_def Let_def split: option.splits)
next
  case (PN_CONNECTION_REMOTE_OPEN rc advertised)
  with res buf le show ?thesis
    by (cases "0 < rc")
      (auto simp: handle.simps emits_def Let_def set_topic_prefix_from_connection_def
        resolution_fails_def split: prod.splits)
next
  case (PN_LINK_FLOW credit)
  from link_flow_loop_returns [OF codec buf, of credit] obtain s'
    where loop: "link_flow_loop (pn_message_encode lib) credit s = Some (Inr s')"
    by blast
  note r = link_flow_loop_result [OF loop]
  from r have eq: "s' = s\<lparr>sent := sent s', trace := trace s', message_buffer := message_buffer s'\<rparr>"
    by blast
  have keep: "message_count s' = message_count s" "acknowledged s' = acknowledged s"
    by (subst eq, simp)+
  from r obtain new where new: "trace s' = trace s @ new"
    "map unsized new = concat (map send_calls [sent s + 1..sent s'])"
    by blast
  have "Pn_connection_close \<notin> set (map unsized new)"
    unfolding new(2) by (rule send_calls_no_close)
  then have "Pn_connection_close \<notin> set new"
    using unsized_close [of new] by blast
  with new(1) have close: "Pn_connection_close \<in> set (trace s') \<longleftrightarrow> Pn_connection_close \<in> set (trace s)"
    by simp
  have "sent s' = min (message_count s) (sent s + max 0 credit)"
    using r le by auto
  with loop keep close r buf PN_LINK_FLOW show ?thesis
    by (simp add: handle.simps)
next
  case (PN_DELIVERY remote_state cond)
  with q have "remote_state = PN_ACCEPTED" by simp
  with PN_DELIVERY buf le show ?thesis
    by (auto simp: handle.simps emits_def Let_def)
next
  case (PN_EVENT_OTHER name)
  with buf le show ?thesis
    by (auto simp: handle.simps)
qed (use q in simp_all)

lemma quiet_run:
  assumes codec: "codec_sizes (pn_message_encode lib) sz"
  shows "\<forall>e\<in>set es. quiet e \<Longrightarrow> resolves lib s es \<Longrightarrow> message_buffer s \<noteq> Some 0
   \<Longrightarrow> sent s \<le> message_count s
   \<Longrightarrow> \<exists>s'. run lib s es = Some (Inr (Waiting s'))
     \<and> sent s' = min (message_count s) (sent s + sum_list (map granted es))
     \<and> acknowledged s' = acknowledged s + sum_list (map accepted es)
     \<and> message_count s' = message_count s
     \<and> (Pn_connection_close \<in> set (trace s') \<longleftrightarrow>
          Pn_connection_close \<in> set (trace s)
          \<or> acknowledged s < message_count s
             \<and> message_count s \<le> acknowledged s + sum_list (map accepted es))"
proof (induction es arbitrary: s)
  case Nil
  then show ?case by auto
next
  case (Cons e es)
  from Cons.prems(1) have q: "quiet e" and qs: "\<forall>e\<in>set es. quiet e" by simp_all
  from Cons.prems(2) have res: "\<not> resolution_fails lib s e" by simp
  from quiet_step [OF q res codec Cons.prems(3,4)] obtain s1
    where step: "handle lib s e = Some (Inr (True, s1))"
      and s1: "sent s1 = min (message_count s) (sent s + granted e)"
        "acknowledged s1 = acknowledged s + accepted e"
        "message_count s1 = message_count s"
        "message_buffer s1 \<noteq> Some 0"
      and c1: "Pn_connection_close \<in> set (trace s1) \<longleftrightarrow>
          Pn_connection_close \<in> set (trace s) \<or> accepted e = 1 \<and> acknowledged s + 1 = message_count s"
    by blast
  have le1: "sent s1 \<le> message_count s1" using s1 by simp
  from Cons.prems(2) step have res1: "resolves lib s1 es" by simp
  from Cons.IH [OF qs res1 s1(4) le1] obtain s' where r: "run lib s1 es = Some (Inr (Waiting s'))"
    and s': "sent s' = min (message_count s1) (sent s1 + sum_list (map granted es))"
      "acknowledged s' = acknowledged s1 + sum_list (map accepted es)"
      "message_count s' = message_count s1"
    and c': "Pn_connection_close \<in> set (trace s') \<longleftrightarrow>
          Pn_connection_close \<in> set (trace s1)
          \<or> acknowledged s1 < message_count s1
             \<and> message_count s1 \<le> acknowledged s1 + sum_list (map accepted es)"
    by blast
  have g0: "0 \<le> sum_list (map granted es)"
    by (rule sum_list_nonneg) (auto simp: granted_nonneg)
  have a0: "0 \<le> sum_list (map accepted es)"
    by (rule sum_list_nonneg) (auto simp: accepted_nonneg)
  note ge = granted_nonneg [of e]
  note ae = accepted_range [of e]
  have "run lib s (e # es) = Some (Inr (Waiting s'))"
    using step r by simp
  moreover have "sent s' = min (message_count s) (sent s + sum_list (map granted (e # es)))"
    using s' s1 g0 ge Cons.prems(4) by auto
  moreover have "acknowledged s' = acknowledged s + sum_list (map accepted (e # es))"
    using s' s1 by simp
  moreover have "message_count s' = message_count s"
    using s' s1 by simp
  moreover have "Pn_connection_close \<in> set (trace s') \<longleftrightarrow>
          Pn_connection_close \<in> set (trace s)
          \<or> acknowledged s < message_count s
             \<and> message_count s \<le> acknowledged s + sum_list (map accepted (e # es))"
    using c' c1 s1 a0 ae by auto
  ultimately show ?case by blast
qed

lemma sample_library_behaves:
  "codec_sizes (pn_message_encode sample_library) (\<lambda>m. length (body m) + 150)
   \<and> resolves sample_library (sample_app 2) [PN_CONNECTION_INIT, PN_CONNECTION_REMOTE_OPEN 5 ''acme/'', PN_LINK_FLOW 1]"
  by (simp add: codec_sizes_def encodes_to_def resolution_fails_def eval_defs)

subsection \<open>The range of the counters\<close>

lemma handle_sent_max:
  assumes "handle lib s e = Some (Inr (b, s'))"
  shows "sent s' \<le> max (sent s) (message_count s)"
proof (cases "\<exists>credit. e = PN_LINK_FLOW credit")
  case True
  then obtain credit where "e = PN_LINK_FLOW credit" by blast
  with assms have loop: "link_flow_loop (pn_message_encode lib) credit s = Some (Inr s')"
    by (auto simp: handle.simps split: option.splits sum.splits)
  from link_flow_loop_result [OF loop] show ?thesis by auto
next
  case False
  with handle_keeps_sent [OF assms] show ?thesis by simp
qed

lemma handle_acknowledged_accepted:
  assumes "handle lib s e = Some (Inr (b, s'))"
  shows "acknowledged s' = acknowledged s + accepted e"
proof (cases e)
  case (PN_LINK_FLOW credit)
  with assms have loop: "link_flow_loop (pn_message_encode lib) credit s = Some (Inr s')"
    by (auto simp: handle.simps split: option.splits sum.splits)
  from link_flow_loop_result [OF loop]
  have eq: "s' = s\<lparr>sent := sent s', trace := trace s', message_buffer := message_buffer s'\<rparr>"
    by blast
  have "acknowledged s' = acknowledged s" by (subst eq) simp
  with PN_LINK_FLOW show ?thesis by simp
qed (use assms in \<open>auto simp: handle.simps emits_def Let_def set_topic_prefix_from_connection_def
      split: option.splits if_splits prod.splits dest!: check_condition_frame\<close>)

lemma run_acknowledged_waiting:
  "run lib s es = Some (Inr (Waiting s1)) \<Longrightarrow> acknowledged s1 = acknowledged s + sum_list (map accepted es)"
proof (induction es arbitrary: s)
  case Nil
  then show ?case by auto
next
  case (Cons e es)
  from Cons.prems obtain b s2 where step: "handle lib s e = Some (Inr (b, s2))"
    and rest: "(if b then run lib s2 es else Some (Inr (Returned s2))) = Some (Inr (Waiting s1))"
    by (auto split: option.splits sum.splits)
  from rest have "run lib s2 es = Some (Inr (Waiting s1))"
    by (cases b) simp_all
  from Cons.IH [OF this] handle_acknowledged_accepted [OF step] show ?case by simp
qed

lemma run_acknowledged_bound:
  "run lib s es = Some (Inr out) \<Longrightarrow> acknowledged (state_of out) \<le> acknowledged s + sum_list (map accepted es)"
proof (induction es arbitrary: s)
  case Nil
  then show ?case by auto
next
  case (Cons e es)
  from Cons.prems obtain b s1 where step: "handle lib s e = Some (Inr (b, s1))"
    and rest: "(if b then run lib s1 es else Some (Inr (Returned s1))) = Some (Inr out)"
    by (auto split: option.splits sum.splits)
  note a = handle_acknowledged_accepted [OF step]
  have nonneg: "0 \<le> sum_list (map accepted es)"
    by (rule sum_list_nonneg) (auto simp: accepted_nonneg)
  show ?case
  proof (cases b)
    case True
    with rest have "run lib s1 es = Some (Inr out)" by simp
    from Cons.IH [OF this] a show ?thesis by simp
  next
    case False
    with rest have "out = Returned s1" by simp
    with a nonneg show ?thesis by simp
  qed
qed

section \<open>The claims\<close>

subsection \<open>C1: the counters\<close>

text \<open>
  C1 as stated fails for \<open>acknowledged \<le> sent\<close>. Credit for one message of three, then
  two \<^verbatim>\<open>PN_DELIVERY\<close> events with the state
  \<^verbatim>\<open>PN_ACCEPTED\<close>: the handler counts both, and \<open>acknowledged\<close> is 2 while \<open>sent\<close> is 1.
\<close>

theorem acknowledged_exceeds_sent:
  "map_option sent (state_after sample_library (sample_app 3)
      [PN_LINK_FLOW 1, PN_DELIVERY PN_ACCEPTED no_condition, PN_DELIVERY PN_ACCEPTED no_condition]) = Some 1
   \<and> map_option acknowledged (state_after sample_library (sample_app 3)
      [PN_LINK_FLOW 1, PN_DELIVERY PN_ACCEPTED no_condition, PN_DELIVERY PN_ACCEPTED no_condition]) = Some 2"
  by (simp add: state_after_def eval_defs)

text \<open>
  C1, as the code has it. The counters are C \<^verbatim>\<open>int\<close>s, and \<^verbatim>\<open>++app->acknowledged\<close> is
  not guarded, so the statements are about counters in the range of an \<^verbatim>\<open>int\<close>.
  \<^item> Over a step of the handler that returns, from a state with \<open>acknowledged\<close> below
    \<open>INT_MAX\<close>, \<open>sent\<close> and \<open>acknowledged\<close> do not decrease and stay in the range, and
    \<open>message_count\<close> is unchanged.
  \<^item> In every state reached from \<open>sent = 0\<close>, \<open>acknowledged = 0\<close> and a message count
    that is not negative, by events of which at most \<open>INT_MAX\<close> are accepted
    outcomes, \<open>0 \<le> sent \<le> message_count\<close>, and \<open>acknowledged\<close> is between 0 and the
    number of accepted outcomes; it is that number when every event has been handled.
  \<^item> The bound \<open>acknowledged \<le> sent\<close> holds in every state reached by events among
    which each accepted outcome comes while fewer outcomes have been counted than
    messages sent; the handler itself does not check it. (Each increment of
    \<open>acknowledged\<close> then starts below \<open>sent \<le> message_count \<le> INT_MAX\<close>.)
\<close>

theorem counters_monotone_and_bounded:
  "(handle lib s e = Some (Inr (b, s'))
      \<and> sent s \<le> INT_MAX \<and> message_count s \<le> INT_MAX \<and> acknowledged s < INT_MAX \<longrightarrow>
      sent s \<le> sent s' \<and> sent s' \<le> INT_MAX
      \<and> acknowledged s \<le> acknowledged s' \<and> acknowledged s' \<le> INT_MAX
      \<and> message_count s' = message_count s)
   \<and> (sent s = 0 \<and> acknowledged s = 0 \<and> 0 \<le> message_count s \<and> message_count s \<le> INT_MAX
        \<and> sum_list (map accepted es) \<le> INT_MAX \<and> run lib s es = Some (Inr out) \<longrightarrow>
        0 \<le> acknowledged (state_of out) \<and> acknowledged (state_of out) \<le> sum_list (map accepted es)
        \<and> (\<forall>s1. out = Waiting s1 \<longrightarrow> acknowledged s1 = sum_list (map accepted es))
        \<and> 0 \<le> sent (state_of out) \<and> sent (state_of out) \<le> message_count (state_of out)
        \<and> message_count (state_of out) = message_count s)
   \<and> (sent s = 0 \<and> acknowledged s = 0 \<and> 0 \<le> message_count s \<and> message_count s \<le> INT_MAX
        \<and> acks_follow_sends lib s es \<and> run lib s es = Some (Inr out) \<longrightarrow>
        acknowledged (state_of out) \<le> sent (state_of out)
        \<and> sent (state_of out) \<le> message_count (state_of out)
        \<and> message_count (state_of out) \<le> INT_MAX)"
proof -
  have step: "sent s \<le> sent s' \<and> sent s' \<le> INT_MAX
      \<and> acknowledged s \<le> acknowledged s' \<and> acknowledged s' \<le> INT_MAX
      \<and> message_count s' = message_count s"
    if "handle lib s e = Some (Inr (b, s'))" "sent s \<le> INT_MAX" "message_count s \<le> INT_MAX"
      "acknowledged s < INT_MAX"
    using handle_frame(1,2,3) [OF that(1)] handle_sent_max [OF that(1)]
      handle_acknowledged [OF that(1)] that(2,3,4)
    by auto
  have reach: "0 \<le> acknowledged (state_of out) \<and> acknowledged (state_of out) \<le> sum_list (map accepted es)
        \<and> (\<forall>s1. out = Waiting s1 \<longrightarrow> acknowledged s1 = sum_list (map accepted es))
        \<and> 0 \<le> sent (state_of out) \<and> sent (state_of out) \<le> message_count (state_of out)
        \<and> message_count (state_of out) = message_count s"
    if "sent s = 0" "acknowledged s = 0" "0 \<le> message_count s" "run lib s es = Some (Inr out)"
    using run_frame(1,2,3,6) [OF that(4)] run_acknowledged_bound [OF that(4)]
      run_acknowledged_waiting [of lib s es] that
    by auto
  have follow: "acknowledged (state_of out) \<le> sent (state_of out)
        \<and> sent (state_of out) \<le> message_count (state_of out)
        \<and> message_count (state_of out) \<le> INT_MAX"
    if "sent s = 0" "acknowledged s = 0" "0 \<le> message_count s" "message_count s \<le> INT_MAX"
      "acks_follow_sends lib s es" "run lib s es = Some (Inr out)"
    using run_frame(1,6) [OF that(6)] run_acknowledged_le_sent [OF _ that(5,6)] that(1,2,3,4)
    by auto
  from step reach follow show ?thesis by blast
qed

theorem counters_monotone_and_bounded_witness:
  "(\<exists>s'. handle sample_library (sample_app 3) (PN_LINK_FLOW 2) = Some (Inr (True, s'))
        \<and> sent (sample_app 3) \<le> sent s' \<and> sent s' \<le> INT_MAX
        \<and> acknowledged (sample_app 3) \<le> acknowledged s' \<and> acknowledged s' \<le> INT_MAX)
   \<and> sent (sample_app 3) = 0 \<and> acknowledged (sample_app 3) = 0 \<and> 0 \<le> message_count (sample_app 3)
   \<and> message_count (sample_app 3) \<le> INT_MAX \<and> acknowledged (sample_app 3) < INT_MAX
   \<and> sum_list (map accepted [PN_LINK_FLOW 2, PN_DELIVERY PN_ACCEPTED no_condition]) \<le> INT_MAX
   \<and> acks_follow_sends sample_library (sample_app 3) [PN_LINK_FLOW 2, PN_DELIVERY PN_ACCEPTED no_condition]
   \<and> (\<exists>out. run sample_library (sample_app 3) [PN_LINK_FLOW 2, PN_DELIVERY PN_ACCEPTED no_condition] = Some (Inr out)
        \<and> acknowledged (state_of out) \<le> sum_list (map accepted [PN_LINK_FLOW 2, PN_DELIVERY PN_ACCEPTED no_condition])
        \<and> acknowledged (state_of out) \<le> sent (state_of out)
        \<and> sent (state_of out) \<le> message_count (state_of out))"
proof -
  let ?es = "[PN_LINK_FLOW 2, PN_DELIVERY PN_ACCEPTED no_condition]"
  have "\<exists>s'. handle sample_library (sample_app 3) (PN_LINK_FLOW 2) = Some (Inr (True, s'))"
    by (simp add: eval_defs)
  then obtain s' where step: "handle sample_library (sample_app 3) (PN_LINK_FLOW 2) = Some (Inr (True, s'))"
    by blast
  have init: "sent (sample_app 3) = 0" "acknowledged (sample_app 3) = 0" "0 \<le> message_count (sample_app 3)"
    "message_count (sample_app 3) \<le> INT_MAX" "acknowledged (sample_app 3) < INT_MAX"
    "sent (sample_app 3) \<le> INT_MAX"
    by (simp_all add: sample_app_def initial_app_def INT_MAX_def)
  have few: "sum_list (map accepted ?es) \<le> INT_MAX"
    by (simp add: INT_MAX_def)
  have env: "acks_follow_sends sample_library (sample_app 3) ?es"
    by (simp add: eval_defs)
  have "\<exists>out. run sample_library (sample_app 3) ?es = Some (Inr out)"
    by (simp add: eval_defs)
  then obtain out where r: "run sample_library (sample_app 3) ?es = Some (Inr out)"
    by blast
  from counters_monotone_and_bounded [where lib = sample_library and s = "sample_app 3"
      and e = "PN_LINK_FLOW 2" and b = True and s' = s' and es = ?es and out = out] step init few env r
  have "sent (sample_app 3) \<le> sent s'" "sent s' \<le> INT_MAX"
    "acknowledged (sample_app 3) \<le> acknowledged s'" "acknowledged s' \<le> INT_MAX"
    "acknowledged (state_of out) \<le> sum_list (map accepted ?es)"
    "acknowledged (state_of out) \<le> sent (state_of out)"
    "sent (state_of out) \<le> message_count (state_of out)"
    by blast+
  with step init few env r show ?thesis by blast
qed

subsection \<open>C2: a run that sends every message\<close>

text \<open>
  With one message or more to send, a session without failure in which the credit
  granted reaches the message count and as many outcomes are accepted as messages are to
  be sent ends with \<open>sent = acknowledged = message_count\<close> and the close requested; and
  the close has been requested in a state of such a session exactly when
  \<open>acknowledged\<close> has reached \<open>message_count\<close>.
\<close>

lemma successful_run_completes:
  assumes "codec_sizes (pn_message_encode lib) sz"
    and "\<forall>e\<in>set es. quiet e" and "resolves lib s es" and "message_buffer s \<noteq> Some 0"
    and "sent s = 0" and "acknowledged s = 0" and "Pn_connection_close \<notin> set (trace s)"
    and "1 \<le> message_count s"
    and "sum_list (map accepted es) \<le> message_count s"
  shows "\<exists>s'. run lib s es = Some (Inr (Waiting s'))
     \<and> (Pn_connection_close \<in> set (trace s') \<longleftrightarrow> acknowledged s' = message_count s)
     \<and> (message_count s \<le> sum_list (map granted es) \<longrightarrow> sent s' = message_count s)
     \<and> (sum_list (map accepted es) = message_count s \<longrightarrow> acknowledged s' = message_count s)"
proof -
  from assms(5,8) have "sent s \<le> message_count s" by simp
  from quiet_run [OF assms(1,2,3,4) this] assms(5,6,7,8,9) show ?thesis
    by auto
qed

text \<open>
  With no message to send, no session without failure ever requests the close: \<^verbatim>\<open>run\<close>
  is still waiting after any number of such events.
\<close>

lemma zero_count_never_closes:
  assumes "codec_sizes (pn_message_encode lib) sz"
    and "\<forall>e\<in>set es. quiet e" and "resolves lib s es" and "message_buffer s \<noteq> Some 0"
    and "sent s = 0" and "acknowledged s = 0" and "Pn_connection_close \<notin> set (trace s)"
    and "message_count s = 0"
  shows "\<exists>s'. run lib s es = Some (Inr (Waiting s')) \<and> sent s' = 0
     \<and> Pn_connection_close \<notin> set (trace s')"
proof -
  from assms(5,8) have "sent s \<le> message_count s" by simp
  have "0 \<le> sum_list (map granted es)"
    by (rule sum_list_nonneg) (auto simp: granted_nonneg)
  with quiet_run [OF assms(1,2,3,4) \<open>sent s \<le> message_count s\<close>] assms(5,6,7,8) show ?thesis
    by auto
qed

text \<open>
  C2, at the message count 0 (\<^verbatim>\<open>-c 0\<close>, which \<^verbatim>\<open>parse_args\<close> accepts): after the
  handshake and a grant of credit, \<open>sent\<close> and \<open>acknowledged\<close> are 0, equal to the
  message count, \<^verbatim>\<open>pn_connection_close\<close> has not been called, and \<^verbatim>\<open>run\<close> waits for
  further events. The close is requested only in the \<^verbatim>\<open>PN_DELIVERY\<close> case, and no
  delivery exists.
\<close>

theorem zero_messages_leave_connection_open:
  "run sample_library (sample_app 0) [PN_CONNECTION_INIT, PN_CONNECTION_REMOTE_OPEN (- 1) [], PN_LINK_FLOW 10]
     = Some (Inr (Waiting ((sample_app 0)\<lparr>trace :=
         [Pn_connection_set_container ''producer:4711'', Pn_connection_open,
          Pn_session, Pn_session_open, Pn_sender ''my_sender'',
          Stdout (''setting amqp topic:'' @ [CHR 0x27] @ ''topic://my_topic'' @ [CHR 0x27] @ newline),
          Pn_terminus_set_address ''topic://my_topic'', Pn_link_open]\<rparr>)))
   \<and> sent (sample_app 0) = message_count (sample_app 0)
   \<and> acknowledged (sample_app 0) = message_count (sample_app 0)
   \<and> message_count (sample_app 0) = 0"
  by (simp add: eval_defs)

subsection \<open>C3: sending under credit\<close>




subsection \<open>C4: reporting a condition\<close>

text \<open>
  C4 as stated fails on a transport that closed without an error: \<^verbatim>\<open>check_condition\<close>
  returns the state as it was, with exit status 0 and no close requested.
\<close>

theorem check_condition_no_effect_when_unset:
  "check_condition (PN_TRANSPORT_CLOSED no_condition) no_condition (sample_app 3) = Some (sample_app 3)
   \<and> exit_code (sample_app 3) = 0
   \<and> Pn_connection_close \<notin> set (trace (sample_app 3))"
  by (simp add: check_condition_def no_condition_def sample_app_def initial_app_def)

text \<open>
  C4, as the code has it. \<^verbatim>\<open>check_condition\<close> changes nothing when the condition is not
  set. When it is set, the function prints one line with the event type name, the
  condition name and the description (\<^verbatim>\<open>(null)\<close> when the condition has none); then,
  when the condition has an info that is not null, one line \<^verbatim>\<open>Err info:\<close> with the
  text \<^verbatim>\<open>pn_data_format\<close> wrote on the first call that did not report an overflow, the
  length being doubled from 128 (and staying below \<open>2 ^ 64\<close>, the range of
  \<^verbatim>\<open>size_t\<close>); then it requests the close of the connection and sets the exit status
  to 1. Nothing else of the state changes, and nothing else is printed.
\<close>

theorem check_condition_fails_run_when_set:
  "(\<not> is_set cond \<longrightarrow> check_condition e cond s = Some s)
   \<and> (is_set cond \<and> cond_info cond = None \<longrightarrow>
        check_condition e cond s
          = Some (s\<lparr>trace := trace s @ [Stderr (pn_event_type_name e @ '': '' @ cond_name cond @ '': ''
                                                @ (case cond_description cond of None \<Rightarrow> ''(null)'' | Some text \<Rightarrow> text)
                                                @ newline),
                                        Pn_connection_close],
                    exit_code := 1\<rparr>))
   \<and> (is_set cond \<and> cond_info cond = Some info
        \<and> (\<forall>j<k. info (128 * 2 ^ j) = Format_overflow) \<and> info (128 * 2 ^ k) = Format_done buf
        \<and> 128 * 2 ^ k < (2::nat) ^ 64 \<longrightarrow>
        check_condition e cond s
          = Some (s\<lparr>trace := trace s @ [Stderr (pn_event_type_name e @ '': '' @ cond_name cond @ '': ''
                                                @ (case cond_description cond of None \<Rightarrow> ''(null)'' | Some text \<Rightarrow> text)
                                                @ newline),
                                        Stderr (''Err info: '' @ buf @ newline),
                                        Pn_connection_close],
                    exit_code := 1\<rparr>))"
  using check_condition_unset [of cond e s] check_condition_no_info [of cond e s]
    check_condition_info [of cond info k buf e s]
  by blast

theorem check_condition_fails_run_when_set_witness:
  "is_set sample_condition
   \<and> check_condition (PN_TRANSPORT_CLOSED sample_condition) sample_condition (sample_app 3)
       = Some ((sample_app 3)\<lparr>trace := [Stderr (''PN_TRANSPORT_CLOSED: amqp:unauthorized-access: denied'' @ newline),
                                        Stderr (''Err info: {reason=1}'' @ newline),
                                        Pn_connection_close],
                                exit_code := 1\<rparr>)
   \<and> is_set named_condition \<and> cond_info named_condition = None
   \<and> check_condition (PN_CONNECTION_REMOTE_CLOSE named_condition) named_condition (sample_app 3)
       = Some ((sample_app 3)\<lparr>trace := [Stderr (''PN_CONNECTION_REMOTE_CLOSE: amqp:connection:forced: (null)'' @ newline),
                                        Pn_connection_close],
                                exit_code := 1\<rparr>)
   \<and> \<not> is_set no_condition
   \<and> check_condition (PN_TRANSPORT_CLOSED no_condition) no_condition (sample_app 3) = Some (sample_app 3)"
proof -
  let ?info = "\<lambda>len::nat. if 300 \<le> len then Format_done ''{reason=1}'' else Format_overflow"
  have a: "is_set sample_condition" "cond_info sample_condition = Some ?info"
    by (simp_all add: sample_condition_def)
  have b: "\<forall>j<2. ?info (128 * 2 ^ j) = Format_overflow"
    by (simp add: less_Suc_eq numeral_2_eq_2)
  have c: "?info (128 * 2 ^ 2) = Format_done ''{reason=1}''" "128 * 2 ^ 2 < (2::nat) ^ 64"
    by simp_all
  have d: "is_set named_condition" "cond_info named_condition = None"
    and e: "\<not> is_set no_condition"
    by (simp_all add: named_condition_def no_condition_def)
  have t: "trace (sample_app 3) = []"
    by (simp add: sample_app_def initial_app_def)
  from check_condition_fails_run_when_set [where cond = sample_condition
      and e = "PN_TRANSPORT_CLOSED sample_condition" and s = "sample_app 3" and info = ?info
      and k = 2 and buf = "''{reason=1}''"] a b c
  have "check_condition (PN_TRANSPORT_CLOSED sample_condition) sample_condition (sample_app 3)
       = Some ((sample_app 3)\<lparr>trace := trace (sample_app 3)
                  @ [Stderr (pn_event_type_name (PN_TRANSPORT_CLOSED sample_condition) @ '': ''
                             @ cond_name sample_condition @ '': ''
                             @ (case cond_description sample_condition of None \<Rightarrow> ''(null)'' | Some text \<Rightarrow> text)
                             @ newline),
                     Stderr (''Err info: '' @ ''{reason=1}'' @ newline),
                     Pn_connection_close],
                                exit_code := 1\<rparr>)"
    by blast
  then have f: "check_condition (PN_TRANSPORT_CLOSED sample_condition) sample_condition (sample_app 3)
       = Some ((sample_app 3)\<lparr>trace := [Stderr (''PN_TRANSPORT_CLOSED: amqp:unauthorized-access: denied'' @ newline),
                                        Stderr (''Err info: {reason=1}'' @ newline),
                                        Pn_connection_close],
                                exit_code := 1\<rparr>)"
    by (simp add: t sample_condition_def)
  from check_condition_fails_run_when_set [where cond = named_condition
      and e = "PN_CONNECTION_REMOTE_CLOSE named_condition" and s = "sample_app 3" and info = ?info
      and k = 0 and buf = "[]"] d
  have "check_condition (PN_CONNECTION_REMOTE_CLOSE named_condition) named_condition (sample_app 3)
       = Some ((sample_app 3)\<lparr>trace := trace (sample_app 3)
                  @ [Stderr (pn_event_type_name (PN_CONNECTION_REMOTE_CLOSE named_condition) @ '': ''
                             @ cond_name named_condition @ '': ''
                             @ (case cond_description named_condition of None \<Rightarrow> ''(null)'' | Some text \<Rightarrow> text)
                             @ newline),
                     Pn_connection_close],
                                exit_code := 1\<rparr>)"
    by blast
  then have g: "check_condition (PN_CONNECTION_REMOTE_CLOSE named_condition) named_condition (sample_app 3)
       = Some ((sample_app 3)\<lparr>trace := [Stderr (''PN_CONNECTION_REMOTE_CLOSE: amqp:connection:forced: (null)'' @ newline),
                                        Pn_connection_close],
                                exit_code := 1\<rparr>)"
    by (simp add: t named_condition_def)
  from check_condition_fails_run_when_set [where cond = no_condition
      and e = "PN_TRANSPORT_CLOSED no_condition" and s = "sample_app 3" and info = ?info
      and k = 0 and buf = "[]"] e
  have h: "check_condition (PN_TRANSPORT_CLOSED no_condition) no_condition (sample_app 3) = Some (sample_app 3)"
    by blast
  from a(1) d e f g h show ?thesis by blast
qed

subsection \<open>C5: failure to resolve the address\<close>

text \<open>
  C5 as stated fails in its last part. An address of 1100 characters does not fit
  \<^verbatim>\<open>PN_MAX_ADDR\<close>. \<^verbatim>\<open>run\<close> returns on the
  \<^verbatim>\<open>PN_CONNECTION_REMOTE_OPEN\<close> event: a \<^verbatim>\<open>PN_TRANSPORT_CLOSED\<close> event that follows it,
  with a condition set, is never handled (nothing is printed for it and no close is
  requested), and the result is the same as without that event.
\<close>

theorem resolution_failure_stops_run_counterexample:
  "run sample_library ((sample_app 3)\<lparr>amqp_address := replicate 1100 CHR ''a''\<rparr>)
       [PN_CONNECTION_REMOTE_OPEN (- 1) [], PN_TRANSPORT_CLOSED sample_condition]
     = Some (Inr (Returned ((sample_app 3)\<lparr>amqp_address := replicate 1100 CHR ''a'', exit_code := 1,
                              trace := [Pn_session, Pn_session_open, Pn_sender ''my_sender'']\<rparr>)))
   \<and> run sample_library ((sample_app 3)\<lparr>amqp_address := replicate 1100 CHR ''a''\<rparr>)
       [PN_CONNECTION_REMOTE_OPEN (- 1) []]
     = Some (Inr (Returned ((sample_app 3)\<lparr>amqp_address := replicate 1100 CHR ''a'', exit_code := 1,
                              trace := [Pn_session, Pn_session_open, Pn_sender ''my_sender'']\<rparr>)))"
  by (simp add: handle.simps sample_library_def sample_app_def initial_app_def
      spec_destination_address_def set_topic_prefix_from_connection_def emits_def Let_def)

text \<open>
  C5, as the code has it. When \<^verbatim>\<open>amqp_destination_address\<close> returns a negative value,
  the handler has only created the session and the sender, sets the exit status to 1
  and returns false, so \<^verbatim>\<open>run\<close> returns at once whatever events follow: none of them
  is handled, no link is opened and no message is sent. If no \<^verbatim>\<open>PN_LINK_FLOW\<close> event
  was handled before, \<open>sent\<close> and the messages sent are what they were at the start.
\<close>

theorem resolution_failure_stops_run:
  "(resolution_fails lib s (PN_CONNECTION_REMOTE_OPEN rc buf) \<longrightarrow>
      (\<exists>s'. handle lib s (PN_CONNECTION_REMOTE_OPEN rc buf) = Some (Inr (False, s'))
         \<and> exit_code s' = 1 \<and> sent s' = sent s \<and> acknowledged s' = acknowledged s
         \<and> sends (trace s') = sends (trace s)
         \<and> trace s' = trace s @ [Pn_session, Pn_session_open, Pn_sender ''my_sender'']
         \<and> (\<forall>es. run lib s (PN_CONNECTION_REMOTE_OPEN rc buf # es) = Some (Inr (Returned s')))))
   \<and> ((\<forall>e\<in>set pre. \<forall>credit. e \<noteq> PN_LINK_FLOW credit) \<and> run lib s0 pre = Some (Inr (Waiting s))
        \<and> resolution_fails lib s (PN_CONNECTION_REMOTE_OPEN rc buf) \<longrightarrow>
      (\<exists>s'. run lib s0 (pre @ PN_CONNECTION_REMOTE_OPEN rc buf # post) = Some (Inr (Returned s'))
         \<and> exit_code s' = 1 \<and> sent s' = sent s0 \<and> sends (trace s') = sends (trace s0)))"
proof -
  have one: "\<exists>s'. handle lib s (PN_CONNECTION_REMOTE_OPEN rc buf) = Some (Inr (False, s'))
         \<and> exit_code s' = 1 \<and> sent s' = sent s \<and> acknowledged s' = acknowledged s
         \<and> sends (trace s') = sends (trace s)
         \<and> trace s' = trace s @ [Pn_session, Pn_session_open, Pn_sender ''my_sender'']
         \<and> (\<forall>es. run lib s (PN_CONNECTION_REMOTE_OPEN rc buf # es) = Some (Inr (Returned s')))"
    if "resolution_fails lib s (PN_CONNECTION_REMOTE_OPEN rc buf)"
    using that
    by (cases "0 < rc")
      (auto simp: resolution_fails_def handle.simps set_topic_prefix_from_connection_def
        emits_def Let_def split: prod.splits)
  have two: "\<exists>s'. run lib s0 (pre @ PN_CONNECTION_REMOTE_OPEN rc buf # post) = Some (Inr (Returned s'))
         \<and> exit_code s' = 1 \<and> sent s' = sent s0 \<and> sends (trace s') = sends (trace s0)"
    if pre: "\<forall>e\<in>set pre. \<forall>credit. e \<noteq> PN_LINK_FLOW credit" "run lib s0 pre = Some (Inr (Waiting s))"
      and fails: "resolution_fails lib s (PN_CONNECTION_REMOTE_OPEN rc buf)"
  proof -
    from one [OF fails] obtain s' where s': "exit_code s' = 1" "sent s' = sent s"
      "sends (trace s') = sends (trace s)"
      "run lib s (PN_CONNECTION_REMOTE_OPEN rc buf # post) = Some (Inr (Returned s'))"
      by blast
    from run_keeps_sent [OF pre(2) pre(1)] have "sent s = sent s0" "sends (trace s) = sends (trace s0)"
      by simp_all
    with s' pre(2) show ?thesis
      by (simp add: run_append)
  qed
  from one two show ?thesis by blast
qed

theorem resolution_failure_stops_run_witness:
  "resolution_fails sample_library ((sample_app 3)\<lparr>amqp_address := replicate 1100 CHR ''a''\<rparr>)
       (PN_CONNECTION_REMOTE_OPEN (- 1) [])
   \<and> (\<forall>credit. PN_CONNECTION_INIT \<noteq> PN_LINK_FLOW credit)
   \<and> (\<exists>s. run sample_library ((sample_app 3)\<lparr>amqp_address := replicate 1100 CHR ''a''\<rparr>) [PN_CONNECTION_INIT]
            = Some (Inr (Waiting s))
        \<and> resolution_fails sample_library s (PN_CONNECTION_REMOTE_OPEN (- 1) []))
   \<and> (\<exists>s'. run sample_library ((sample_app 3)\<lparr>amqp_address := replicate 1100 CHR ''a''\<rparr>)
             ([PN_CONNECTION_INIT] @ PN_CONNECTION_REMOTE_OPEN (- 1) [] # [PN_LINK_FLOW 10])
            = Some (Inr (Returned s')) \<and> exit_code s' = 1 \<and> sent s' = 0)
   \<and> (\<exists>s'. handle sample_library ((sample_app 3)\<lparr>amqp_address := replicate 1100 CHR ''a''\<rparr>)
              (PN_CONNECTION_REMOTE_OPEN (- 1) []) = Some (Inr (False, s')) \<and> exit_code s' = 1)"
proof -
  let ?init = "(sample_app 3)\<lparr>amqp_address := replicate 1100 CHR ''a''\<rparr>"
  let ?opened = "?init\<lparr>trace := [Pn_connection_set_container ''producer:4711'', Pn_connection_open]\<rparr>"
  have a: "resolution_fails sample_library ?init (PN_CONNECTION_REMOTE_OPEN (- 1) [])"
    and b: "resolution_fails sample_library ?opened (PN_CONNECTION_REMOTE_OPEN (- 1) [])"
    by (simp_all add: resolution_fails_def sample_library_def sample_app_def initial_app_def
        spec_destination_address_def)
  have c: "\<forall>e\<in>set [PN_CONNECTION_INIT]. \<forall>credit. e \<noteq> PN_LINK_FLOW credit"
    by simp
  have d: "run sample_library ?init [PN_CONNECTION_INIT] = Some (Inr (Waiting ?opened))"
    by (simp add: handle.simps sample_app_def initial_app_def emits_def Let_def)
  have e: "sent ?init = 0"
    by (simp add: sample_app_def initial_app_def)
  from resolution_failure_stops_run [where lib = sample_library and s = ?opened and rc = "- 1" and buf = "[]"
      and pre = "[PN_CONNECTION_INIT]" and s0 = ?init and post = "[PN_LINK_FLOW 10]"] b c d
  obtain s' where "run sample_library ?init ([PN_CONNECTION_INIT] @ PN_CONNECTION_REMOTE_OPEN (- 1) [] # [PN_LINK_FLOW 10])
            = Some (Inr (Returned s'))" "exit_code s' = 1" "sent s' = sent ?init"
    by blast
  with e have f: "\<exists>s'. run sample_library ?init ([PN_CONNECTION_INIT] @ PN_CONNECTION_REMOTE_OPEN (- 1) [] # [PN_LINK_FLOW 10])
            = Some (Inr (Returned s')) \<and> exit_code s' = 1 \<and> sent s' = 0"
    by auto
  from resolution_failure_stops_run [where lib = sample_library and s = ?init and rc = "- 1" and buf = "[]"
      and pre = "[]" and s0 = ?init and post = "[]"] a
  have g: "\<exists>s'. handle sample_library ?init (PN_CONNECTION_REMOTE_OPEN (- 1) []) = Some (Inr (False, s')) \<and> exit_code s' = 1"
    by blast
  have h: "\<forall>credit. PN_CONNECTION_INIT \<noteq> PN_LINK_FLOW credit" by simp
  from a b d f g h show ?thesis by blast
qed

subsection \<open>C6: growth of the encode buffer\<close>

text \<open>
  C6. The sizes are \<^verbatim>\<open>size_t\<close> values, doubled by \<^verbatim>\<open>size *= 2\<close>: the statements are
  about sizes below \<open>2 ^ 64\<close>, where the doubling of the C program is the doubling of
  a natural number.
  \<^item> If the message built from \<^verbatim>\<open>app->sent\<close> has an encoded form of size \<open>n\<close>, with
    \<open>n\<close> at most \<open>2 ^ 63\<close>, and the buffer is not allocated yet or has a size that is
    not 0, then \<^verbatim>\<open>encode_message\<close> returns: after some number \<open>k\<close> of doublings of the
    size it started from (128 when the buffer was not allocated yet) the encoding
    fits, the returned range has \<open>n\<close> bytes, \<open>n\<close> is at most the size reached, every
    smaller size tried was too small, and the size reached is below \<open>2 ^ 64\<close>, so
    that no doubling on the way has wrapped around.
  \<^item> For any codec, when a call of \<^verbatim>\<open>encode_message\<close> returns with a size below
    \<open>2 ^ 64\<close>, that size is at least the size before the call, an allocated buffer
    does not get the size 0, and every size tried on the way was below \<open>2 ^ 64\<close>;
    the size at the end of any run is at least the size at its start.
  \<^item> The length of the returned range is at most the buffer size at return as soon as
    \<^verbatim>\<open>pn_message_encode\<close> never reports more bytes than the buffer it was given holds.
\<close>

theorem encode_message_terminates_and_grows:
  "(encodes_to (enc (sequence_message (sent s))) n \<and> message_buffer s \<noteq> Some 0
      \<and> n \<le> 2 ^ 63 \<and> buffer_size s < 2 ^ 64 \<longrightarrow>
      (\<exists>k. encode_message enc s
              = Some (Inr (s\<lparr>message_buffer := Some ((case message_buffer s of None \<Rightarrow> 128 | Some c \<Rightarrow> c) * 2 ^ k)\<rparr>,
                           sequence_message (sent s), n))
          \<and> n \<le> (case message_buffer s of None \<Rightarrow> 128 | Some c \<Rightarrow> c) * 2 ^ k
          \<and> (\<forall>j<k. (case message_buffer s of None \<Rightarrow> 128 | Some c \<Rightarrow> c) * 2 ^ j < n)
          \<and> (case message_buffer s of None \<Rightarrow> 128 | Some c \<Rightarrow> c) * 2 ^ k < 2 ^ 64))
   \<and> (encode_message enc s = Some (Inr (s', m, len)) \<and> buffer_size s' < 2 ^ 64 \<longrightarrow>
        buffer_size s \<le> buffer_size s' \<and> (message_buffer s \<noteq> Some 0 \<longrightarrow> message_buffer s' \<noteq> Some 0)
        \<and> (\<exists>k. buffer_size s' = (case message_buffer s of None \<Rightarrow> 128 | Some c \<Rightarrow> c) * 2 ^ k
               \<and> (\<forall>j\<le>k. (case message_buffer s of None \<Rightarrow> 128 | Some c \<Rightarrow> c) * 2 ^ j < 2 ^ 64)))
   \<and> ((\<forall>cap written. enc (sequence_message (sent s)) cap = Encoded written \<longrightarrow> written \<le> cap)
        \<and> encode_message enc s = Some (Inr (s', m, len)) \<and> buffer_size s' < 2 ^ 64 \<longrightarrow>
        len \<le> buffer_size s')
   \<and> (run lib s es = Some (Inr out) \<and> buffer_size (state_of out) < 2 ^ 64 \<longrightarrow>
        buffer_size s \<le> buffer_size (state_of out)
        \<and> (message_buffer s \<noteq> Some 0 \<longrightarrow> message_buffer (state_of out) \<noteq> Some 0))"
  using encode_message_in_range [of enc s n] encode_message_buffer(1,2) [of enc s s' m len]
    encode_message_sizes [of enc s s' m len]
    encode_message_length [of enc s s' m len] run_frame(4,7) [of lib s es out]
  by blast

theorem encode_message_terminates_and_grows_witness:
  "encodes_to (sample_encoder (sequence_message (sent ((sample_app 3)\<lparr>sent := 1\<rparr>)))) 160
   \<and> message_buffer ((sample_app 3)\<lparr>sent := 1\<rparr>) \<noteq> Some 0
   \<and> (160::nat) \<le> 2 ^ 63 \<and> buffer_size ((sample_app 3)\<lparr>sent := 1\<rparr>) < 2 ^ 64
   \<and> (\<exists>k. encode_message sample_encoder ((sample_app 3)\<lparr>sent := 1\<rparr>)
            = Some (Inr ((sample_app 3)\<lparr>sent := 1, message_buffer := Some (128 * 2 ^ k)\<rparr>, sequence_message 1, 160))
          \<and> (128::nat) * 2 ^ k < 2 ^ 64)
   \<and> encode_message sample_encoder ((sample_app 3)\<lparr>sent := 1\<rparr>)
        = Some (Inr ((sample_app 3)\<lparr>sent := 1, message_buffer := Some 256\<rparr>, sequence_message 1, 160))
   \<and> buffer_size ((sample_app 3)\<lparr>sent := 1, message_buffer := Some 256\<rparr>) < 2 ^ 64
   \<and> buffer_size ((sample_app 3)\<lparr>sent := 1\<rparr>) \<le> buffer_size ((sample_app 3)\<lparr>sent := 1, message_buffer := Some 256\<rparr>)
   \<and> 160 \<le> buffer_size ((sample_app 3)\<lparr>sent := 1, message_buffer := Some 256\<rparr>)
   \<and> run sample_library (sample_app 3) [PN_LINK_FLOW 1] = Some (Inr (Waiting
         ((sample_app 3)\<lparr>sent := 1, message_buffer := Some 256,
            trace := [Pn_delivery [1, 0, 0, 0], Pn_link_send (sequence_message 1) 160, Pn_link_advance]\<rparr>)))
   \<and> buffer_size (sample_app 3) \<le> buffer_size ((sample_app 3)\<lparr>sent := 1, message_buffer := Some 256,
            trace := [Pn_delivery [1, 0, 0, 0], Pn_link_send (sequence_message 1) 160, Pn_link_advance]\<rparr>)"
proof -
  let ?s = "(sample_app 3)\<lparr>sent := 1\<rparr>"
  let ?s' = "(sample_app 3)\<lparr>sent := 1, message_buffer := Some 256\<rparr>"
  let ?s2 = "(sample_app 3)\<lparr>sent := 1, message_buffer := Some 256,
            trace := [Pn_delivery [1, 0, 0, 0], Pn_link_send (sequence_message 1) 160, Pn_link_advance]\<rparr>"
  have a: "encodes_to (sample_encoder (sequence_message (sent ?s))) 160"
    by (simp add: encodes_to_def eval_defs)
  have b: "message_buffer ?s \<noteq> Some 0" "(160::nat) \<le> 2 ^ 63" "buffer_size ?s < 2 ^ 64"
    "buffer_size ?s' < 2 ^ 64" "buffer_size (state_of (Waiting ?s2)) < 2 ^ 64"
    by (simp_all add: eval_defs)
  have c: "encode_message sample_encoder ?s = Some (Inr (?s', sequence_message 1, 160))"
    by (simp add: eval_defs)
  have d: "run sample_library (sample_app 3) [PN_LINK_FLOW 1] = Some (Inr (Waiting ?s2))"
    by (simp add: eval_defs)
  note t = encode_message_terminates_and_grows [where enc = sample_encoder and s = ?s and n = 160
      and s' = ?s' and m = "sequence_message 1" and len = 160 and lib = sample_library and es = "[]"
      and out = "Waiting ?s"]
  note u = encode_message_terminates_and_grows [where lib = sample_library and s = "sample_app 3"
      and es = "[PN_LINK_FLOW 1]" and out = "Waiting ?s2" and enc = sample_encoder and n = 160
      and s' = ?s' and m = "sequence_message 1" and len = 160]
  from t a b(1,2,3) obtain k where k: "encode_message sample_encoder ?s
      = Some (Inr (?s\<lparr>message_buffer := Some ((case message_buffer ?s of None \<Rightarrow> 128 | Some c \<Rightarrow> c) * 2 ^ k)\<rparr>,
                           sequence_message (sent ?s), 160))"
      "(case message_buffer ?s of None \<Rightarrow> 128 | Some c \<Rightarrow> c) * 2 ^ k < (2::nat) ^ 64"
    by blast
  from k(1) have "encode_message sample_encoder ?s
            = Some (Inr ((sample_app 3)\<lparr>sent := 1, message_buffer := Some (128 * 2 ^ k)\<rparr>, sequence_message 1, 160))"
    by (simp add: sample_app_def initial_app_def)
  moreover from k(2) have "(128::nat) * 2 ^ k < 2 ^ 64"
    by (simp add: sample_app_def initial_app_def)
  ultimately have e: "\<exists>k. encode_message sample_encoder ?s
            = Some (Inr ((sample_app 3)\<lparr>sent := 1, message_buffer := Some (128 * 2 ^ k)\<rparr>, sequence_message 1, 160))
          \<and> (128::nat) * 2 ^ k < 2 ^ 64"
    by blast
  have f: "buffer_size ?s \<le> buffer_size ?s'" using t c b(4) by blast
  have "\<forall>cap written. sample_encoder (sequence_message (sent ?s)) cap = Encoded written \<longrightarrow> written \<le> cap"
    by (simp add: sample_encoder_def)
  with t c b(4) have h: "160 \<le> buffer_size ?s'" by blast
  have g: "buffer_size (sample_app 3) \<le> buffer_size ?s2" using u d b(5) by simp
  from a b(1,2,3,4) c d e f g h show ?thesis by blast
qed

subsection \<open>C7: a delivery that is not accepted\<close>




subsection \<open>C8: the topic prefix advertised by the broker\<close>

text \<open>
  C8. \<^verbatim>\<open>set_topic_prefix_from_connection\<close> returns the result of the lookup and stores
  the advertised value as the prefix exactly when that result is positive. On every
  other result the state is returned as it was. In both cases the exit status and the
  trace are untouched (nothing is printed, no close is requested), and after a
  non-positive result the \<^verbatim>\<open>PN_CONNECTION_REMOTE_OPEN\<close> handler goes on to open the
  session and the link under the prefix it had, and returns true.
\<close>

theorem topic_prefix_replaced_iff_positive:
  "fst (set_topic_prefix_from_connection rc buf s) = rc
   \<and> (0 < rc \<longrightarrow> amqp_topic_prefix (snd (set_topic_prefix_from_connection rc buf s)) = buf)
   \<and> (rc \<le> 0 \<longrightarrow> snd (set_topic_prefix_from_connection rc buf s) = s)
   \<and> exit_code (snd (set_topic_prefix_from_connection rc buf s)) = exit_code s
   \<and> trace (snd (set_topic_prefix_from_connection rc buf s)) = trace s
   \<and> (rc \<le> 0 \<and> \<not> resolution_fails lib s (PN_CONNECTION_REMOTE_OPEN rc buf) \<longrightarrow>
        (\<exists>s'. handle lib s (PN_CONNECTION_REMOTE_OPEN rc buf) = Some (Inr (True, s'))
           \<and> amqp_topic_prefix s' = amqp_topic_prefix s \<and> exit_code s' = exit_code s
           \<and> Pn_connection_close \<notin> set (drop (length (trace s)) (trace s'))
           \<and> last (trace s') = Pn_link_open))"
  by (auto simp: handle.simps set_topic_prefix_from_connection_def resolution_fails_def
        emits_def Let_def split: prod.splits)

theorem topic_prefix_replaced_iff_positive_witness:
  "amqp_topic_prefix (snd (set_topic_prefix_from_connection 5 ''acme/'' (sample_app 3))) = ''acme/''
   \<and> snd (set_topic_prefix_from_connection 0 ''acme/'' (sample_app 3)) = sample_app 3
   \<and> \<not> resolution_fails sample_library (sample_app 3) (PN_CONNECTION_REMOTE_OPEN (- 1) [])
   \<and> (\<exists>s'. handle sample_library (sample_app 3) (PN_CONNECTION_REMOTE_OPEN (- 1) []) = Some (Inr (True, s'))
           \<and> amqp_topic_prefix s' = ''topic://'' \<and> exit_code s' = 0)"
proof -
  have ok: "\<not> resolution_fails sample_library (sample_app 3) (PN_CONNECTION_REMOTE_OPEN (- 1) [])"
    by (simp add: resolution_fails_def sample_library_def sample_app_def initial_app_def
        spec_destination_address_def)
  have init: "amqp_topic_prefix (sample_app 3) = ''topic://''" "exit_code (sample_app 3) = 0"
    by (simp_all add: sample_app_def initial_app_def)
  have "\<exists>s'. handle sample_library (sample_app 3) (PN_CONNECTION_REMOTE_OPEN (- 1) []) = Some (Inr (True, s'))
           \<and> amqp_topic_prefix s' = ''topic://'' \<and> exit_code s' = 0"
    using ok init topic_prefix_replaced_iff_positive [of "- 1" "[]" "sample_app 3" sample_library]
    by simp blast
  moreover have "amqp_topic_prefix (snd (set_topic_prefix_from_connection 5 ''acme/'' (sample_app 3))) = ''acme/''"
    using topic_prefix_replaced_iff_positive [of 5 "''acme/''" "sample_app 3" sample_library]
    by simp
  moreover have "snd (set_topic_prefix_from_connection 0 ''acme/'' (sample_app 3)) = sample_app 3"
    using topic_prefix_replaced_iff_positive [of 0 "''acme/''" "sample_app 3" sample_library]
    by simp
  ultimately show ?thesis using ok by blast
qed

subsection \<open>C9: the numbering of the messages\<close>

text \<open>
  C9. In every state a run reaches from the initial one (nothing sent, empty trace, a
  message count in the range of \<^verbatim>\<open>int\<close>), the messages sent so far are those for the
  sequence numbers \<open>1, \<dots>, sent\<close> in this order, the delivery tags are the bytes of the
  same numbers, and \<open>sent\<close> is at most \<open>message_count\<close>; so no message has the body
  \<^verbatim>\<open>sequence_0\<close>, the first one sent has the body \<^verbatim>\<open>sequence_1\<close>, and for each send the
  integer the tag bytes stand for is the number read back from the body after
  \<^verbatim>\<open>sequence_\<close>. For every 32-bit value the tag bytes and the body each give the number
  back.
\<close>

theorem sequence_numbers_start_at_one:
  "(sent s = 0 \<and> trace s = [] \<and> 0 \<le> message_count s \<and> message_count s < 2 ^ 31
      \<and> run lib s es = Some (Inr out) \<longrightarrow>
      sends (trace (state_of out)) = map sequence_message [1..sent (state_of out)]
      \<and> deliveries (trace (state_of out)) = map int_bytes [1..sent (state_of out)]
      \<and> sent (state_of out) \<le> message_count s
      \<and> (\<forall>m\<in>set (sends (trace (state_of out))). body m \<noteq> ''sequence_0'')
      \<and> (sends (trace (state_of out)) \<noteq> [] \<longrightarrow> body (hd (sends (trace (state_of out)))) = ''sequence_1'')
      \<and> list_all2 (\<lambda>tag m. bytes_int tag = read_int (drop 9 (body m)))
            (deliveries (trace (state_of out))) (sends (trace (state_of out))))
   \<and> (- (2 ^ 31) \<le> k \<and> k < 2 ^ 31 \<longrightarrow>
        bytes_int (int_bytes k) = k \<and> read_int (drop 9 (body (sequence_message k))) = k)"
proof -
  have run: "sends (trace (state_of out)) = map sequence_message [1..sent (state_of out)]
      \<and> deliveries (trace (state_of out)) = map int_bytes [1..sent (state_of out)]
      \<and> sent (state_of out) \<le> message_count s
      \<and> (\<forall>m\<in>set (sends (trace (state_of out))). body m \<noteq> ''sequence_0'')
      \<and> (sends (trace (state_of out)) \<noteq> [] \<longrightarrow> body (hd (sends (trace (state_of out)))) = ''sequence_1'')
      \<and> list_all2 (\<lambda>tag m. bytes_int tag = read_int (drop 9 (body m)))
            (deliveries (trace (state_of out))) (sends (trace (state_of out)))"
    if init: "sent s = 0" "trace s = []" and count: "0 \<le> message_count s" "message_count s < 2 ^ 31"
      and r: "run lib s es = Some (Inr out)"
  proof -
    let ?n = "sent (state_of out)"
    from run_numbering [OF r] init
    have num: "sends (trace (state_of out)) = map sequence_message [1..?n]"
      "deliveries (trace (state_of out)) = map int_bytes [1..?n]"
      by simp_all
    from run_frame(6) [OF r] init count have le: "?n \<le> message_count s" by simp
    have no0: "body m \<noteq> ''sequence_0''" if "m \<in> set (sends (trace (state_of out)))" for m
    proof
      assume b: "body m = ''sequence_0''"
      from that num obtain j where j: "1 \<le> j" "m = sequence_message j" by auto
      from b have "read_int (drop 9 (body m)) = 0"
        by (simp add: read_int_def read_nat_def digit_val_def)
      with j sequence_message_number [of j] show False by simp
    qed
    have first: "body (hd (sends (trace (state_of out)))) = ''sequence_1''"
      if "sends (trace (state_of out)) \<noteq> []"
    proof -
      from that num have "1 \<le> ?n" by (cases "1 \<le> ?n") auto
      then have "[1..?n] = 1 # [2..?n]" by (simp add: upto_rec1)
      with num show ?thesis
        by (simp add: sequence_message_def show_int_def digits.simps digit_char_def)
    qed
    have "bytes_int (int_bytes j) = read_int (drop 9 (body (sequence_message j)))"
      if "j \<in> set [1..?n]" for j
      using that le count bytes_int_int_bytes [of j] sequence_message_number [of j] by auto
    then have pair: "list_all2 (\<lambda>tag m. bytes_int tag = read_int (drop 9 (body m)))
            (map int_bytes [1..?n]) (map sequence_message [1..?n])"
      by (simp add: list_all2_map1 list_all2_map2 list_all2_same)
    from num le no0 first pair show ?thesis by simp
  qed
  have tag: "bytes_int (int_bytes k) = k \<and> read_int (drop 9 (body (sequence_message k))) = k"
    if "- (2 ^ 31) \<le> k" "k < 2 ^ 31"
    using that bytes_int_int_bytes sequence_message_number by simp
  from run tag show ?thesis by blast
qed

theorem sequence_numbers_start_at_one_witness:
  "sent (sample_app 3) = 0 \<and> trace (sample_app 3) = [] \<and> 0 \<le> message_count (sample_app 3)
   \<and> message_count (sample_app 3) < 2 ^ 31
   \<and> (\<exists>out. run sample_library (sample_app 3) [PN_CONNECTION_INIT, PN_LINK_FLOW 2] = Some (Inr out)
          \<and> sends (trace (state_of out)) = [sequence_message 1, sequence_message 2]
          \<and> deliveries (trace (state_of out)) = [int_bytes 1, int_bytes 2]
          \<and> body (hd (sends (trace (state_of out)))) = ''sequence_1'')
   \<and> - (2 ^ 31) \<le> (7::int) \<and> (7::int) < 2 ^ 31
   \<and> bytes_int (int_bytes 7) = 7 \<and> read_int (drop 9 (body (sequence_message 7))) = 7"
proof -
  let ?es = "[PN_CONNECTION_INIT, PN_LINK_FLOW 2]"
  have init: "sent (sample_app 3) = 0" "trace (sample_app 3) = []" "0 \<le> message_count (sample_app 3)"
    "message_count (sample_app 3) < 2 ^ 31"
    by (simp_all add: sample_app_def initial_app_def)
  have "\<exists>out. run sample_library (sample_app 3) ?es = Some (Inr out) \<and> sent (state_of out) = 2"
    by (simp add: eval_defs)
  then obtain out where r: "run sample_library (sample_app 3) ?es = Some (Inr out)"
    and n: "sent (state_of out) = 2"
    by blast
  have range: "- (2 ^ 31) \<le> (7::int)" "(7::int) < 2 ^ 31" by simp_all
  note t = sequence_numbers_start_at_one [where s = "sample_app 3" and lib = sample_library
      and es = ?es and out = out and k = 7]
  from t init r have "sends (trace (state_of out)) = map sequence_message [1..sent (state_of out)]"
    "deliveries (trace (state_of out)) = map int_bytes [1..sent (state_of out)]"
    by blast+
  with n have sd: "sends (trace (state_of out)) = [sequence_message 1, sequence_message 2]"
    "deliveries (trace (state_of out)) = [int_bytes 1, int_bytes 2]"
    by (simp_all add: upto.simps)
  then have "sends (trace (state_of out)) \<noteq> []" by simp
  with t init r have first: "body (hd (sends (trace (state_of out)))) = ''sequence_1''"
    by blast
  from t range have tag: "bytes_int (int_bytes 7) = 7" "read_int (drop 9 (body (sequence_message 7))) = 7"
    by blast+
  from init r sd first range tag show ?thesis by blast
qed

subsection \<open>C10: when the loop stops\<close>




end
